theory Spec2Isabelle
  imports Main "HOL-Library.Word" "HOL-Library.Signed_Division"
begin

unbundle bit_operations_syntax

section \<open>Data model\<close>

text \<open>
  Go's \<open>byte\<close> is an 8-bit word. A Go string is a sequence of bytes and \<open>len\<close> counts
  bytes, so a string value is a list of bytes.
\<close>

type_synonym byte = "8 word"
type_synonym gostring = "byte list"

text \<open>
  Go's \<open>int\<close> and \<open>uint\<close> have 64 bits on the platforms of the package. Lengths, offsets
  and handles are modelled by unbounded integers (\<open>nat\<close> where Go guarantees a length,
  \<open>int\<close> elsewhere): they are bounded by the memory of the process and never reach
  \<open>2 ^ 63\<close>. The two places where the width shows are written out: the conversion
  \<open>uint(len)\<close> in \<open>spaceForLength\<close> and the accumulator of \<open>readLength\<close>.

  \<open>const stringbankSize = 1 << 18\<close>, the same in both packages.
\<close>

definition stringbankSize :: int where
  "stringbankSize = push_bit 18 1"

text \<open>The run-time panics the code can raise.\<close>

datatype panic = index_out_of_range | slice_bounds_out_of_range | read_length_overrun

text \<open>
  A byte slice as the callee sees it: its length and its elements, indexed from 0.
  Indexing at or beyond \<open>slice_len\<close> panics in Go; every access below checks it.
\<close>

record slice =
  slice_len :: nat
  slice_at :: "nat \<Rightarrow> byte"

text \<open>\<open>make([]byte, n)\<close>: n zero bytes.\<close>

definition make_bytes :: "nat \<Rightarrow> slice" where
  "make_bytes n = \<lparr>slice_len = n, slice_at = (\<lambda>_. 0)\<rparr>"

section \<open>The length codec\<close>

text \<open>
  \<open>bits.Len\<close> of the Go standard library: the minimum number of bits needed to
  represent x; 0 for x = 0.
\<close>

fun bits_Len :: "nat \<Rightarrow> nat" where
  "bits_Len x = (if x = 0 then 0 else Suc (bits_Len (x div 2)))"

declare bits_Len.simps [simp del]

text \<open>
  \<open>spaceForLength\<close> (identical in both packages). \<open>uint(len)\<close> reinterprets the
  64-bit two's complement value as unsigned: \<open>take_bit 64\<close>.
\<close>

definition spaceForLength :: "int \<Rightarrow> int" where
  "spaceForLength len = (int (bits_Len (nat (take_bit 64 len))) + 6) div 7"

text \<open>
  \<open>writeLength\<close> (identical in both packages). The loop runs while \<open>remainder \<noteq> 0\<close>;
  \<open>buf[i] = val\<close> panics when i is not below the length of buf. The buffer is
  returned together with the result, as the writes are visible to the caller.
\<close>

function writeLength_loop :: "int \<Rightarrow> nat \<Rightarrow> slice \<Rightarrow> (panic + int) \<times> slice" where
  "writeLength_loop remainder i buf =
     (if remainder = 0 then (Inr (int i), buf)
      else
        let val = (word_of_int (remainder AND 0x7F) :: byte);
            remainder' = drop_bit 7 remainder;
            val' = (if remainder' \<noteq> 0 then val OR 0x80 else val)
        in if i < slice_len buf
           then writeLength_loop remainder' (i + 1) (buf\<lparr>slice_at := (slice_at buf)(i := val')\<rparr>)
           else (Inl index_out_of_range, buf))"
  by pat_completeness auto

termination
  by (relation "measure (\<lambda>(r, i, buf). slice_len buf - i)") auto

declare writeLength_loop.simps [simp del]

definition writeLength :: "int \<Rightarrow> slice \<Rightarrow> (panic + int) \<times> slice" where
  "writeLength len buf = writeLength_loop len 0 buf"

text \<open>
  \<open>readLength\<close> of the heap package. The accumulator \<open>total\<close> is a 64-bit \<open>int\<close>:
  the shifted group is added with wrap-around, and a shift by 64 or more gives 0, as
  \<open>push_bit\<close> on a 64-bit word does; the result is read as a signed number. \<open>buf[i]\<close>
  panics when the buffer is exhausted.
\<close>

function readLength_loop :: "64 word \<Rightarrow> nat \<Rightarrow> slice \<Rightarrow> panic + (int \<times> int)" where
  "readLength_loop tot i buf =
     (if i < slice_len buf then
        let val = slice_at buf i;
            tot' = tot + push_bit (7 * i) (ucast (val AND 0x7F))
        in if val AND 0x80 = 0 then Inr (sint tot', int (i + 1))
           else readLength_loop tot' (i + 1) buf
      else Inl index_out_of_range)"
  by pat_completeness auto

termination
  by (relation "measure (\<lambda>(t, i, buf). slice_len buf - i)") auto

declare readLength_loop.simps [simp del]

definition readLength :: "slice \<Rightarrow> panic + (int \<times> int)" where
  "readLength buf = readLength_loop 0 0 buf"

text \<open>
  \<open>readLength\<close> of the off-heap package: a \<open>range\<close> loop over the buffer, and an
  explicit panic when no terminating byte was found.
\<close>

function oh_readLength_loop :: "64 word \<Rightarrow> nat \<Rightarrow> slice \<Rightarrow> panic + (int \<times> int)" where
  "oh_readLength_loop tot i buf =
     (if i < slice_len buf then
        let val = slice_at buf i;
            tot' = tot + push_bit (7 * i) (ucast (val AND 0x7F))
        in if val AND 0x80 = 0 then Inr (sint tot', int (i + 1))
           else oh_readLength_loop tot' (i + 1) buf
      else Inl read_length_overrun)"
  by pat_completeness auto

termination
  by (relation "measure (\<lambda>(t, i, buf). slice_len buf - i)") auto

declare oh_readLength_loop.simps [simp del]

definition oh_readLength :: "slice \<Rightarrow> panic + (int \<times> int)" where
  "oh_readLength buf = oh_readLength_loop 0 0 buf"

section \<open>The arena\<close>

text \<open>
  A page is the backing array of one allocation, addressed by offset. Every element of
  \<open>allocations\<close> is a slice of length and capacity \<open>stringbankSize\<close> over its page;
  accesses at or beyond that bound panic and are checked where they occur.

  \<open>current\<close> shares its backing array with the last element of \<open>allocations\<close>: the
  only assignments to it are in \<open>reserve\<close>, next to the \<open>append\<close>, and in \<open>Close\<close>. It
  is therefore kept as its length and capacity; its bytes are those of the last page, and a
  write through it is a write to that page. A nil \<open>current\<close> has capacity 0.
\<close>

type_synonym page = "nat \<Rightarrow> byte"

record Stringbank =
  current_len :: nat
  current_cap :: nat
  allocations :: "page list"

text \<open>The zero value \<open>Stringbank{}\<close>.\<close>

definition empty_bank :: Stringbank where
  "empty_bank = \<lparr>current_len = 0, current_cap = 0, allocations = []\<rparr>"

definition zero_page :: page where
  "zero_page = (\<lambda>_. 0)"

definition Size :: "Stringbank \<Rightarrow> int" where
  "Size s = int (length (allocations s)) * stringbankSize"

text \<open>\<open>pg[off : off+n]\<close> as a slice value, and the effect on the page of writes made through it.\<close>

definition window :: "page \<Rightarrow> nat \<Rightarrow> nat \<Rightarrow> slice" where
  "window pg off n = \<lparr>slice_len = n, slice_at = (\<lambda>i. pg (off + i))\<rparr>"

definition store :: "page \<Rightarrow> nat \<Rightarrow> slice \<Rightarrow> page" where
  "store pg off buf = (\<lambda>j. if off \<le> j \<and> j < off + slice_len buf then slice_at buf (j - off) else pg j)"

definition current_page :: "Stringbank \<Rightarrow> page" where
  "current_page s = (if allocations s = [] then zero_page else last (allocations s))"

definition write_back :: "Stringbank \<Rightarrow> nat \<Rightarrow> slice \<Rightarrow> Stringbank" where
  "write_back s off buf =
     (if allocations s = [] then s
      else s\<lparr>allocations := butlast (allocations s) @ [store (last (allocations s)) off buf]\<rparr>)"

text \<open>
  \<open>copy(buf[start:], src)\<close>: the slice expression panics unless \<open>0 \<le> start \<le> len(buf)\<close>;
  \<open>copy\<close> moves as many bytes as fit.
\<close>

definition copy_from :: "slice \<Rightarrow> int \<Rightarrow> gostring \<Rightarrow> panic + slice" where
  "copy_from buf start src =
     (if start < 0 \<or> int (slice_len buf) < start then Inl slice_bounds_out_of_range
      else Inr (buf\<lparr>slice_at :=
             (\<lambda>j. if nat start \<le> j \<and> j < nat start + min (slice_len buf - nat start) (length src)
                  then src ! (j - nat start) else slice_at buf j)\<rparr>))"

subsection \<open>The heap package\<close>

text \<open>
  The last three lines of \<open>reserve\<close>, the same in both packages: \<open>s.current[:offset+l]\<close>
  panics unless \<open>0 \<le> offset+l \<le> cap\<close>, \<open>s.current[offset:]\<close> unless \<open>offset \<le> len\<close>. The
  returned slice is given by its offset in the current page and its length.
\<close>

definition carve :: "int \<Rightarrow> Stringbank \<Rightarrow> (panic + (int \<times> nat \<times> nat)) \<times> Stringbank" where
  "carve l s =
     (let offset = current_len s;
          high = int offset + l
      in if high < 0 \<or> int (current_cap s) < high then (Inl slice_bounds_out_of_range, s)
         else
           let s' = s\<lparr>current_len := nat high\<rparr>
           in if nat high < offset then (Inl slice_bounds_out_of_range, s')
              else (Inr ((int (length (allocations s')) - 1) * stringbankSize + int offset,
                         offset, nat high - offset), s'))"

definition reserve :: "int \<Rightarrow> Stringbank \<Rightarrow> (panic + (int \<times> nat \<times> nat)) \<times> Stringbank" where
  "reserve l s =
     carve l
       (if int (current_len s) + l > int (current_cap s)
        then s\<lparr>current_len := 0, current_cap := nat stringbankSize,
               allocations := allocations s @ [zero_page]\<rparr>
        else s)"

definition Save :: "gostring \<Rightarrow> Stringbank \<Rightarrow> (panic + int) \<times> Stringbank" where
  "Save tocopy s =
     (let l = int (length tocopy) in
      case reserve (l + spaceForLength l) s of
        (Inl p, s') \<Rightarrow> (Inl p, s')
      | (Inr (offset, boff, blen), s') \<Rightarrow>
          (case writeLength l (window (current_page s') boff blen) of
             (Inl p, buf) \<Rightarrow> (Inl p, write_back s' boff buf)
           | (Inr start, buf) \<Rightarrow>
               (case copy_from buf start tocopy of
                  Inl p \<Rightarrow> (Inl p, write_back s' boff buf)
                | Inr buf' \<Rightarrow> (Inr offset, write_back s' boff buf'))))"

text \<open>
  \<open>Get\<close>. Go's \<open>/\<close> and \<open>%\<close> truncate towards zero (\<open>sdiv\<close>, \<open>smod\<close>).
  \<open>s.allocations[i]\<close> panics unless \<open>0 \<le> i < len\<close>; \<open>data[offset:]\<close> unless
  \<open>0 \<le> offset \<le> len(data)\<close>; \<open>data[lo:hi]\<close> unless \<open>0 \<le> lo \<le> hi \<le> cap(data)\<close>.
\<close>

definition Get :: "Stringbank \<Rightarrow> int \<Rightarrow> panic + gostring" where
  "Get s index =
     (let pi = index sdiv stringbankSize in
      if pi < 0 \<or> int (length (allocations s)) \<le> pi then Inl index_out_of_range
      else
        let data = allocations s ! nat pi;
            offset = index smod stringbankSize
        in if offset < 0 \<or> stringbankSize < offset then Inl slice_bounds_out_of_range
           else
             (case readLength (window data (nat offset) (nat (stringbankSize - offset))) of
                Inl p \<Rightarrow> Inl p
              | Inr (l, llen) \<Rightarrow>
                  if offset + llen < 0 \<or> offset + llen + l < offset + llen
                     \<or> stringbankSize < offset + llen + l
                  then Inl slice_bounds_out_of_range
                  else Inr (map data [nat (offset + llen) ..< nat (offset + llen + l)])))"

subsection \<open>The off-heap package\<close>

text \<open>
  \<open>mmap.Alloc[byte](stringbankSize)\<close> and \<open>mmap.Free\<close> belong to another module; what
  they return is a parameter of the model. An allocation returns a slice, either nil
  (\<open>None\<close>) or of the requested \<open>stringbankSize\<close> bytes over a page, and an error
  (\<open>syscall.Errno\<close>, a number; \<open>None\<close> is Go's nil error).
\<close>

type_synonym errno = nat

record alloc_result =
  mem :: "page option"
  err :: "errno option"

text \<open>An allocation that succeeded with zeroed memory, as \<open>make\<close> always does.\<close>

definition make_page :: alloc_result where
  "make_page = \<lparr>mem = Some zero_page, err = None\<rparr>"

text \<open>
  \<open>reserve\<close>: the error of \<open>mmap.Alloc\<close> is assigned to the blank identifier. With a nil
  slice, \<open>s.current = slice[:0]\<close> is nil and \<open>s.current[0:stringbankSize]\<close> panics
  before the \<open>append\<close>.
\<close>

definition oh_reserve ::
    "alloc_result \<Rightarrow> int \<Rightarrow> Stringbank \<Rightarrow> (panic + (int \<times> nat \<times> nat)) \<times> Stringbank" where
  "oh_reserve a l s =
     (if int (current_len s) + l > int (current_cap s)
      then (case mem a of
              None \<Rightarrow> (Inl slice_bounds_out_of_range, s\<lparr>current_len := 0, current_cap := 0\<rparr>)
            | Some pg \<Rightarrow>
                carve l (s\<lparr>current_len := 0, current_cap := nat stringbankSize,
                           allocations := allocations s @ [pg]\<rparr>))
      else carve l s)"

text \<open>The general path of \<open>Save\<close> (the statements after the fast-track branch).\<close>

definition oh_Save_general ::
    "alloc_result \<Rightarrow> gostring \<Rightarrow> Stringbank \<Rightarrow> (panic + int) \<times> Stringbank" where
  "oh_Save_general a tocopy s =
     (let l = int (length tocopy) in
      case oh_reserve a (l + spaceForLength l) s of
        (Inl p, s') \<Rightarrow> (Inl p, s')
      | (Inr (offset, boff, blen), s') \<Rightarrow>
          (case writeLength l (window (current_page s') boff blen) of
             (Inl p, buf) \<Rightarrow> (Inl p, write_back s' boff buf)
           | (Inr start, buf) \<Rightarrow>
               (case copy_from buf start tocopy of
                  Inl p \<Rightarrow> (Inl p, write_back s' boff buf)
                | Inr buf' \<Rightarrow> (Inr offset, write_back s' boff buf'))))"

text \<open>The fast-track branch of \<open>Save\<close>, taken when \<open>l \<le> 0x7F\<close>.\<close>

definition oh_Save_fast ::
    "alloc_result \<Rightarrow> gostring \<Rightarrow> Stringbank \<Rightarrow> (panic + int) \<times> Stringbank" where
  "oh_Save_fast a tocopy s =
     (let l = int (length tocopy) in
      case oh_reserve a (l + 1) s of
        (Inl p, s') \<Rightarrow> (Inl p, s')
      | (Inr (offset, boff, blen), s') \<Rightarrow>
          (let buf = window (current_page s') boff blen in
           if slice_len buf = 0 then (Inl index_out_of_range, s')
           else
             let buf1 = buf\<lparr>slice_at := (slice_at buf)(0 := word_of_int l)\<rparr>
             in case copy_from buf1 1 tocopy of
                  Inl p \<Rightarrow> (Inl p, write_back s' boff buf1)
                | Inr buf' \<Rightarrow> (Inr offset, write_back s' boff buf')))"

definition oh_Save ::
    "alloc_result \<Rightarrow> gostring \<Rightarrow> Stringbank \<Rightarrow> (panic + int) \<times> Stringbank" where
  "oh_Save a tocopy s =
     (if int (length tocopy) \<le> 0x7F then oh_Save_fast a tocopy s
      else oh_Save_general a tocopy s)"

text \<open>The general path of \<open>Get\<close> (the statements after the one-byte branch).\<close>

definition oh_Get_general :: "page \<Rightarrow> int \<Rightarrow> panic + gostring" where
  "oh_Get_general data offset =
     (case oh_readLength (window data (nat offset) (nat (stringbankSize - offset))) of
        Inl p \<Rightarrow> Inl p
      | Inr (l, llen) \<Rightarrow>
          if offset + llen < 0 \<or> offset + llen + l < offset + llen
             \<or> stringbankSize < offset + llen + l
          then Inl slice_bounds_out_of_range
          else Inr (map data [nat (offset + llen) ..< nat (offset + llen + l)]))"

text \<open>
  The one-byte branch of \<open>Get\<close>, taken when the first byte \<open>l\<close> has its high bit
  clear: \<open>data[offset+1 : offset+1+int(l)]\<close>; \<open>int(l)\<close> of a byte is its unsigned value.
\<close>

definition oh_Get_fast :: "page \<Rightarrow> int \<Rightarrow> panic + gostring" where
  "oh_Get_fast data offset =
     (let l = data (nat offset)
      in if stringbankSize < offset + 1 + uint l then Inl slice_bounds_out_of_range
         else Inr (map data [nat (offset + 1) ..< nat (offset + 1 + uint l)]))"

text \<open>\<open>Get\<close>: \<open>data[offset]\<close> panics unless \<open>0 \<le> offset < len(data)\<close>.\<close>

definition oh_Get :: "Stringbank \<Rightarrow> int \<Rightarrow> panic + gostring" where
  "oh_Get s index =
     (let pi = index sdiv stringbankSize in
      if pi < 0 \<or> int (length (allocations s)) \<le> pi then Inl index_out_of_range
      else
        let data = allocations s ! nat pi;
            offset = index smod stringbankSize
        in if offset < 0 \<or> stringbankSize \<le> offset then Inl index_out_of_range
           else if data (nat offset) AND 0x80 = 0 then oh_Get_fast data offset
           else oh_Get_general data offset)"

text \<open>
  \<open>Close\<close>: the pages are freed in order; the first error returns at once, leaving the
  fields as they are. \<open>fr i\<close> is what \<open>mmap.Free\<close> returns for the i-th allocation. The
  indices of the pages freed without error are returned next to the error.
\<close>

fun free_all :: "(nat \<Rightarrow> errno option) \<Rightarrow> nat \<Rightarrow> page list \<Rightarrow> nat list \<times> errno option" where
  "free_all fr i [] = ([], None)"
| "free_all fr i (allocation # rest) =
     (case fr i of
        Some e \<Rightarrow> ([], Some e)
      | None \<Rightarrow> (case free_all fr (Suc i) rest of (freed, r) \<Rightarrow> (i # freed, r)))"

definition oh_Close :: "(nat \<Rightarrow> errno option) \<Rightarrow> Stringbank \<Rightarrow> errno option \<times> nat list \<times> Stringbank" where
  "oh_Close fr s =
     (case free_all fr 0 (allocations s) of
        (freed, Some e) \<Rightarrow> (Some e, freed, s)
      | (freed, None) \<Rightarrow> (None, freed, s\<lparr>allocations := [], current_len := 0, current_cap := 0\<rparr>))"

text \<open>\<open>Size\<close> of the off-heap package is the same function as \<^const>\<open>Size\<close>.\<close>

subsection \<open>Sequences of saves\<close>

text \<open>
  A caller saving a list of strings one after the other, as the tests' loops do. The state
  is threaded through; a panicking call leaves the state it had reached.
\<close>

definition save_many :: "gostring list \<Rightarrow> Stringbank \<Rightarrow> Stringbank" where
  "save_many ts s = foldl (\<lambda>s t. snd (Save t s)) s ts"

definition oh_save_many :: "(alloc_result \<times> gostring) list \<Rightarrow> Stringbank \<Rightarrow> Stringbank" where
  "oh_save_many ats s = foldl (\<lambda>s (a, t). snd (oh_Save a t s)) s ats"

text \<open>The bytes of a string literal.\<close>

definition bytes_of :: "string \<Rightarrow> gostring" where
  "bytes_of cs = map of_char cs"

section \<open>Notions used in the statements and proofs\<close>

text \<open>
  The base-128 continuation encoding of a number, least significant group first, every
  byte but the last with its high bit set. It has at least one byte: 0 is the single byte 0.
\<close>

fun varint :: "nat \<Rightarrow> byte list" where
  "varint r = (if r div 128 = 0 then [of_nat r]
               else (of_nat (r mod 128) OR 0x80) # varint (r div 128))"

declare varint.simps [simp del]

text \<open>
  What the loop of \<open>writeLength\<close> emits for a length: nothing for 0, since the loop
  body does not run, and the encoding otherwise.
\<close>

definition emitted :: "nat \<Rightarrow> byte list" where
  "emitted n = (if n = 0 then [] else varint n)"

text \<open>The bytes \<open>bs\<close> stand in page \<open>pg\<close> from offset \<open>off\<close> on.\<close>

definition holds :: "page \<Rightarrow> nat \<Rightarrow> byte list \<Rightarrow> bool" where
  "holds pg off bs \<longleftrightarrow> (\<forall>k < length bs. pg (off + k) = bs ! k)"

text \<open>Page \<open>pg\<close> with the bytes \<open>bs\<close> written from offset \<open>off\<close> on.\<close>

definition put :: "page \<Rightarrow> nat \<Rightarrow> byte list \<Rightarrow> page" where
  "put pg off bs = (\<lambda>j. if off \<le> j \<and> j < off + length bs then bs ! (j - off) else pg j)"

definition put_back :: "Stringbank \<Rightarrow> nat \<Rightarrow> byte list \<Rightarrow> Stringbank" where
  "put_back s off bs =
     (if allocations s = [] then s
      else s\<lparr>allocations := butlast (allocations s) @ [put (last (allocations s)) off bs]\<rparr>)"

text \<open>
  The outcome of a save in terms of the outcome of its \<open>reserve\<close> and the bytes \<open>bs\<close>
  written into the reserved space.
\<close>

definition finish ::
    "(panic + (int \<times> nat \<times> nat)) \<times> Stringbank \<Rightarrow> byte list \<Rightarrow> (panic + int) \<times> Stringbank" where
  "finish r bs =
     (case r of
        (Inl p, s') \<Rightarrow> (Inl p, s')
      | (Inr (h, off, n), s') \<Rightarrow> (Inr h, put_back s' off bs))"

text \<open>
  The invariant of the arena: \<open>current\<close> is nil, or a window of capacity
  \<open>stringbankSize\<close> on the last page.
\<close>

definition well_formed :: "Stringbank \<Rightarrow> bool" where
  "well_formed s \<longleftrightarrow> current_len s \<le> current_cap s \<and>
     (current_cap s = 0 \<or> (int (current_cap s) = stringbankSize \<and> allocations s \<noteq> []))"

text \<open>
  The bytes no later \<open>reserve\<close> can hand out again: those of every page but the last, and
  in the last page those below the length of \<open>current\<close> (all of them when \<open>current\<close> is
  nil). State \<open>s'\<close> extends \<open>s\<close> when these bytes are still there, with their values.
\<close>

definition protected :: "Stringbank \<Rightarrow> nat \<Rightarrow> nat \<Rightarrow> bool" where
  "protected s p off \<longleftrightarrow> p < length (allocations s) \<and>
     (Suc p < length (allocations s) \<or> off < current_len s \<or> current_cap s = 0)"

definition extends :: "Stringbank \<Rightarrow> Stringbank \<Rightarrow> bool" where
  "extends s s' \<longleftrightarrow>
     (\<forall>p off. protected s p off \<longrightarrow>
        protected s' p off \<and> (allocations s' ! p) off = (allocations s ! p) off)"

text \<open>The least handle a later \<open>reserve\<close> of at least one byte can return.\<close>

definition frontier :: "Stringbank \<Rightarrow> int" where
  "frontier s =
     (if current_cap s = 0 then int (length (allocations s)) * stringbankSize
      else (int (length (allocations s)) - 1) * stringbankSize + int (current_len s))"

text \<open>
  The byte at an address, decoded as \<open>Get\<close> decodes a handle: page \<open>a / stringbankSize\<close>,
  offset \<open>a % stringbankSize\<close>.
\<close>

definition byte_at :: "Stringbank \<Rightarrow> int \<Rightarrow> byte" where
  "byte_at s a = (allocations s ! nat (a sdiv stringbankSize)) (nat (a smod stringbankSize))"

text \<open>
  The record of string \<open>t\<close> stands at handle \<open>h\<close> of state \<open>s\<close>: the handle splits
  into a page and an offset, the encoded length and the bytes of \<open>t\<close> are there, within
  the page, and all of them are protected.
\<close>

definition stored :: "Stringbank \<Rightarrow> int \<Rightarrow> gostring \<Rightarrow> bool" where
  "stored s h t \<longleftrightarrow>
     (\<exists>p off. h = int p * stringbankSize + int off \<and>
        int (off + length (varint (length t)) + length t) \<le> stringbankSize \<and>
        (\<forall>k < length (varint (length t) @ t).
           protected s p (off + k) \<and>
           (allocations s ! p) (off + k) = (varint (length t) @ t) ! k))"

section \<open>The codec: bytes and loops\<close>

lemma mask_7F: "(0x7F :: int) = mask 7"
  by (simp add: mask_eq_exp_minus_1)

lemma int_and_7F: "int r AND 0x7F = int (r mod 128)"
  unfolding mask_7F by (simp add: take_bit_eq_mod zmod_int flip: take_bit_eq_mask)

lemma int_drop7: "drop_bit 7 (int r) = int (r div 128)"
  by (simp add: drop_bit_eq_div zdiv_int)

lemma or_high_and_mask: "((x :: byte) OR push_bit 7 1) AND mask 7 = x AND mask 7"
  apply (rule bit_word_eqI)
  apply (simp only: bit_and_iff bit_or_iff bit_push_bit_iff bit_mask_iff bit_1_iff)
  apply auto
  done

lemma or_80_and_7F: "((x :: byte) OR 0x80) AND 0x7F = x AND 0x7F"
  using or_high_and_mask [of x] by (simp add: mask_eq_exp_minus_1)

lemma high_bit_of_or: "bit (((x :: byte) OR push_bit 7 1) AND push_bit 7 1) 7"
  apply (simp only: bit_and_iff bit_or_iff bit_push_bit_iff bit_mask_iff bit_1_iff)
  apply (simp add: possible_bit_word)
  done

lemma or_80_and_80: "((x :: byte) OR 0x80) AND 0x80 \<noteq> 0"
proof -
  have "bit (((x :: byte) OR 0x80) AND 0x80) 7"
    using high_bit_of_or [of x] by simp
  then show ?thesis by auto
qed

lemma small_high_bit_clear: "r < 128 \<Longrightarrow> \<not> bit (of_nat r :: byte) 7"
  apply (simp only: bit_of_nat_iff)
  apply (simp add: bit_iff_odd)
  done

lemma small_and_high:
  assumes "r < 128"
  shows "(of_nat r :: byte) AND push_bit 7 1 = 0"
proof (rule bit_word_eqI)
  fix n
  assume "n < LENGTH(8)"
  show "bit ((of_nat r :: byte) AND push_bit 7 1) n \<longleftrightarrow> bit (0 :: byte) n"
  proof (cases "n = 7")
    case True
    then show ?thesis using small_high_bit_clear [OF assms] by (simp add: bit_and_iff)
  next
    case False
    then show ?thesis
      by (simp only: bit_and_iff bit_push_bit_iff bit_1_iff) auto
  qed
qed

lemma small_and_80: "r < 128 \<Longrightarrow> (of_nat r :: byte) AND 0x80 = 0"
  using small_and_high [of r] by simp


lemma ucast_small_group: "r < 128 \<Longrightarrow> ucast ((of_nat r :: byte) AND 0x7F) = (of_nat r :: 64 word)"
proof -
  assume r: "r < 128"
  have "(0x7F :: byte) = mask 7" by (simp add: mask_eq_exp_minus_1)
  then have "(of_nat r :: byte) AND 0x7F = take_bit 7 (of_nat r)"
    by (simp only: take_bit_eq_mask)
  also have "\<dots> = of_nat (take_bit 7 r)" by (simp only: take_bit_of_nat)
  also have "take_bit 7 r = r" using r by (simp add: take_bit_eq_mod)
  finally have "ucast ((of_nat r :: byte) AND 0x7F) = (ucast (of_nat r :: byte) :: 64 word)"
    by simp
  also have "\<dots> = of_nat (take_bit 8 r)" by (simp add: unsigned_of_nat)
  also have "take_bit 8 r = r" using r by (simp add: take_bit_eq_mod)
  finally show ?thesis .
qed

lemma ucast_flagged_group: "ucast (((of_nat (r mod 128) :: byte) OR 0x80) AND 0x7F) = (of_nat (r mod 128) :: 64 word)"
  by (simp only: or_80_and_7F ucast_small_group [of "r mod 128", simplified])

lemma varint_small: "r < 128 \<Longrightarrow> varint r = [of_nat r]"
  by (simp add: varint.simps)

lemma varint_big: "128 \<le> r \<Longrightarrow> varint r = (of_nat (r mod 128) OR 0x80) # varint (r div 128)"
  by (subst varint.simps) (simp add: div_eq_0_iff)

lemma writeLength_loop_varint:
  assumes "0 < r" and "i + length (varint r) \<le> slice_len buf"
  shows "writeLength_loop (int r) i buf =
           (Inr (int (i + length (varint r))),
            buf\<lparr>slice_at := (\<lambda>j. if i \<le> j \<and> j < i + length (varint r)
                                 then varint r ! (j - i) else slice_at buf j)\<rparr>)"
  using assms
proof (induction r arbitrary: i buf rule: less_induct)
  case (less r)
  show ?case
  proof (cases "r < 128")
    case True
    then have d: "r div 128 = 0" "r mod 128 = r" by simp_all
    have v: "varint r = [of_nat r]" using True by (rule varint_small)
    have i: "i < slice_len buf" using less.prems v by simp
    have fn: "(\<lambda>j. if i \<le> j \<and> j < i + length (varint r) then varint r ! (j - i) else slice_at buf j)
            = (slice_at buf)(i := of_nat r)"
      by (rule ext) (auto simp: v)
    have lhs: "writeLength_loop (int r) i buf
            = (Inr (int (Suc i)), buf\<lparr>slice_at := (slice_at buf)(i := of_nat r)\<rparr>)"
      using less.prems(1) i
      by (subst writeLength_loop.simps)
         (simp add: int_and_7F int_drop7 d Let_def writeLength_loop.simps [of 0])
    show ?thesis unfolding lhs fn by (simp add: v)
  next
    case False
    then have big: "128 \<le> r" by simp
    then have q: "0 < r div 128" "r div 128 < r" by (simp_all add: div_greater_zero_iff)
    have v: "varint r = (of_nat (r mod 128) OR 0x80) # varint (r div 128)"
      using big by (rule varint_big)
    have i: "i < slice_len buf" using less.prems v by simp
    let ?b = "buf\<lparr>slice_at := (slice_at buf)(i := of_nat (r mod 128) OR 0x80)\<rparr>"
    have room: "Suc i + length (varint (r div 128)) \<le> slice_len ?b"
      using less.prems v by simp
    have nz: "int r \<noteq> 0" "int (r div 128) \<noteq> 0" using big q by simp_all
    have step: "writeLength_loop (int r) i buf = writeLength_loop (int (r div 128)) (Suc i) ?b"
      by (subst writeLength_loop.simps) (simp only: nz i int_and_7F int_drop7 Let_def if_True if_False, simp)
    have fn: "(\<lambda>j. if Suc i \<le> j \<and> j < Suc i + length (varint (r div 128))
                   then varint (r div 128) ! (j - Suc i) else slice_at ?b j)
            = (\<lambda>j. if i \<le> j \<and> j < i + length (varint r) then varint r ! (j - i) else slice_at buf j)"
      by (rule ext) (auto simp: v nth_Cons' Suc_diff_le)
    show ?thesis
      unfolding step less.IH [OF q(2) q(1) room]
      using fn by (simp add: v)
  qed
qed

lemma readLength_loop_varint:
  assumes "\<forall>k < length (varint r). slice_at buf (i + k) = varint r ! k"
    and "i + length (varint r) \<le> slice_len buf"
  shows "readLength_loop tot i buf =
           Inr (sint (tot + push_bit (7 * i) (of_nat r)), int (i + length (varint r)))"
  using assms
proof (induction r arbitrary: i tot rule: less_induct)
  case (less r)
  show ?case
  proof (cases "r < 128")
    case True
    have v: "varint r = [of_nat r]" using True by (rule varint_small)
    have i: "i < slice_len buf" using less.prems v by simp
    have b: "slice_at buf i = of_nat r" using less.prems(1) v by simp
    show ?thesis
      using i by (subst readLength_loop.simps) (simp add: b v Let_def small_and_80 [OF True] ucast_small_group [OF True])
  next
    case False
    then have big: "128 \<le> r" by simp
    then have q: "r div 128 < r" by simp
    have v: "varint r = (of_nat (r mod 128) OR 0x80) # varint (r div 128)"
      using big by (rule varint_big)
    have i: "i < slice_len buf" using less.prems v by simp
    have b: "slice_at buf i = of_nat (r mod 128) OR 0x80"
      using less.prems(1) [rule_format, of 0] v by simp
    have rest: "\<forall>k < length (varint (r div 128)). slice_at buf (Suc i + k) = varint (r div 128) ! k"
    proof (intro allI impI)
      fix k
      assume "k < length (varint (r div 128))"
      then have "Suc k < length (varint r)" by (simp add: v)
      from less.prems(1) [rule_format, OF this] show "slice_at buf (Suc i + k) = varint (r div 128) ! k"
        by (simp add: v)
    qed
    have room: "Suc i + length (varint (r div 128)) \<le> slice_len buf"
      using less.prems v by simp
    have arith: "(of_nat (r mod 128) :: 64 word) * 2 ^ (7 * i) + of_nat (r div 128) * 2 ^ (7 + 7 * i)
                 = of_nat r * 2 ^ (7 * i)"
    proof -
      have "of_nat r = (of_nat (r mod 128) :: 64 word) + of_nat (r div 128) * 128"
        by (metis mod_mult_div_eq of_nat_add of_nat_mult of_nat_numeral mult.commute)
      then show ?thesis by (simp add: algebra_simps power_add)
    qed
    show ?thesis
      using i
      by (subst readLength_loop.simps)
         (simp add: b Let_def or_80_and_80 ucast_flagged_group less.IH [OF q rest room] push_bit_eq_mult
            add.assoc arith v)
  qed
qed


section \<open>The codec: widths\<close>

lemma bits_Len_le_iff: "bits_Len n \<le> k \<longleftrightarrow> n < 2 ^ k"
proof (induction n arbitrary: k rule: bits_Len.induct)
  case (1 x)
  show ?case
  proof (cases "x = 0")
    case True
    then show ?thesis by (simp add: bits_Len.simps)
  next
    case False
    show ?thesis
    proof (cases k)
      case 0
      then show ?thesis using False by (simp add: bits_Len.simps [of x])
    next
      case (Suc k')
      have "bits_Len x \<le> k \<longleftrightarrow> bits_Len (x div 2) \<le> k'"
        using False Suc by (simp add: bits_Len.simps [of x])
      also have "\<dots> \<longleftrightarrow> x div 2 < 2 ^ k'" using 1 [OF False] .
      also have "\<dots> \<longleftrightarrow> x < 2 ^ k" using Suc by auto
      finally show ?thesis .
    qed
  qed
qed

lemma bits_Len_mono: "a \<le> b \<Longrightarrow> bits_Len a \<le> bits_Len b"
proof -
  assume ab: "a \<le> b"
  have "b < 2 ^ bits_Len b" using bits_Len_le_iff [of b "bits_Len b"] by simp
  then have "a < 2 ^ bits_Len b" using ab by simp
  then show ?thesis by (simp add: bits_Len_le_iff)
qed

lemma bits_Len_step: "x \<noteq> 0 \<Longrightarrow> bits_Len x = Suc (bits_Len (x div 2))"
  by (simp add: bits_Len.simps [of x])

lemma bits_Len_128:
  assumes "128 \<le> r"
  shows "bits_Len r = bits_Len (r div 128) + 7"
proof -
  have d: "r div 2 div 2 div 2 div 2 div 2 div 2 div 2 = r div 128"
    by (simp add: div_mult2_eq [symmetric])
  have nz: "r \<noteq> 0" "r div 2 \<noteq> 0" "r div 2 div 2 \<noteq> 0" "r div 2 div 2 div 2 \<noteq> 0"
    "r div 2 div 2 div 2 div 2 \<noteq> 0" "r div 2 div 2 div 2 div 2 div 2 \<noteq> 0"
    "r div 2 div 2 div 2 div 2 div 2 div 2 \<noteq> 0"
    using assms by (simp_all add: div_mult2_eq [symmetric] div_eq_0_iff)
  show ?thesis
    apply (subst bits_Len_step [OF nz(1)])
    apply (subst bits_Len_step [OF nz(2)])
    apply (subst bits_Len_step [OF nz(3)])
    apply (subst bits_Len_step [OF nz(4)])
    apply (subst bits_Len_step [OF nz(5)])
    apply (subst bits_Len_step [OF nz(6)])
    apply (subst bits_Len_step [OF nz(7)])
    apply (simp only: d)
    done
qed

lemma bits_Len_small: "0 < r \<Longrightarrow> r < 128 \<Longrightarrow> 1 \<le> bits_Len r \<and> bits_Len r \<le> 7"
  using bits_Len_le_iff [of r 7] bits_Len_le_iff [of r 0] by simp

lemma length_varint: "0 < r \<Longrightarrow> length (varint r) = (bits_Len r + 6) div 7"
proof (induction r rule: less_induct)
  case (less r)
  show ?case
  proof (cases "r < 128")
    case True
    have "(bits_Len r + 6) div 7 = 1"
      using bits_Len_small [OF less.prems True] by presburger
    then show ?thesis using True by (simp add: varint_small)
  next
    case False
    then have big: "128 \<le> r" by simp
    then have q: "r div 128 < r" "0 < r div 128" by (simp_all add: div_greater_zero_iff)
    show ?thesis
      using less.IH [OF q] by (simp add: varint_big [OF big] bits_Len_128 [OF big])
  qed
qed

lemma length_varint_pos: "0 < length (varint r)"
  by (subst varint.simps) simp

lemma spaceForLength_zero: "spaceForLength 0 = 0"
  by (simp add: spaceForLength_def bits_Len.simps)

lemma spaceForLength_pos:
  assumes "0 < n" and "n < 2 ^ 64"
  shows "spaceForLength n = int (length (varint (nat n)))"
proof -
  have "take_bit 64 n = n" using assms by (simp add: take_bit_int_eq_self)
  then show ?thesis
    using assms by (simp add: spaceForLength_def length_varint zdiv_int)
qed

lemma sint_of_nat_small: "r < 2 ^ 63 \<Longrightarrow> sint (of_nat r :: 64 word) = int r"
proof -
  assume r: "r < 2 ^ 63"
  then have "int r < 2 ^ 63" by (metis of_nat_less_iff of_nat_numeral of_nat_power)
  then have "signed_take_bit 63 (int r) = int r"
    by (intro signed_take_bit_int_eq_self) simp_all
  then show ?thesis by (simp add: signed_of_nat)
qed

lemma sdiv_nonneg: "0 \<le> a \<Longrightarrow> 0 < b \<Longrightarrow> (a :: int) sdiv b = a div b"
  by (simp add: signed_divide_int_def sgn_if)

lemma smod_nonneg: "0 \<le> a \<Longrightarrow> 0 < b \<Longrightarrow> (a :: int) smod b = a mod b"
  by (simp add: signed_modulo_int_def sgn_if)


section \<open>The codec: round trip\<close>

lemma oh_readLength_loop_eq:
  "oh_readLength_loop tot i buf =
     (case readLength_loop tot i buf of Inl p \<Rightarrow> Inl read_length_overrun | Inr x \<Rightarrow> Inr x)"
proof (induction tot i buf rule: readLength_loop.induct)
  case (1 tot i buf)
  show ?case
  proof (cases "i < slice_len buf")
    case False
    then show ?thesis
      by (subst oh_readLength_loop.simps, subst readLength_loop.simps) simp
  next
    case True
    show ?thesis
    proof (cases "slice_at buf i AND 0x80 = 0")
      case z: True
      then show ?thesis using True
        by (subst oh_readLength_loop.simps, subst readLength_loop.simps) (simp add: Let_def)
    next
      case nz: False
      have "oh_readLength_loop tot i buf
              = oh_readLength_loop (tot + push_bit (7 * i) (ucast (slice_at buf i AND 0x7F))) (i + 1) buf"
        using True nz by (subst oh_readLength_loop.simps) (simp add: Let_def)
      moreover have "readLength_loop tot i buf
              = readLength_loop (tot + push_bit (7 * i) (ucast (slice_at buf i AND 0x7F))) (i + 1) buf"
        using True nz by (subst readLength_loop.simps) (simp add: Let_def)
      ultimately show ?thesis using 1 [OF True refl refl nz] by simp
    qed
  qed
qed

lemma writeLength_pos:
  assumes "0 < r" and "length (varint r) \<le> slice_len buf"
  shows "writeLength (int r) buf =
           (Inr (int (length (varint r))), buf\<lparr>slice_at := put (slice_at buf) 0 (varint r)\<rparr>)"
  using writeLength_loop_varint [of r 0 buf] assms
  by (simp add: writeLength_def put_def)

lemma writeLength_zero: "writeLength 0 buf = (Inr 0, buf)"
  by (simp add: writeLength_def writeLength_loop.simps)

lemma readLength_varint:
  assumes "holds (slice_at buf) 0 (varint r)" and "length (varint r) \<le> slice_len buf"
    and "r < 2 ^ 63"
  shows "readLength buf = Inr (int r, int (length (varint r)))"
  using readLength_loop_varint [of r buf 0 0] assms
  by (simp add: readLength_def holds_def sint_of_nat_small)

lemma oh_readLength_varint:
  assumes "holds (slice_at buf) 0 (varint r)" and "length (varint r) \<le> slice_len buf"
    and "r < 2 ^ 63"
  shows "oh_readLength buf = Inr (int r, int (length (varint r)))"
  using readLength_varint [OF assms]
  by (simp add: oh_readLength_def readLength_def oh_readLength_loop_eq)

lemma holds_put: "holds (put pg off bs) off bs"
  by (simp add: holds_def put_def)

lemma codec_roundtrip_pos:
  assumes "0 < n" and "n < 2 ^ 63" and "spaceForLength n \<le> int (slice_len buf)"
  shows "fst (writeLength n buf) = Inr (spaceForLength n) \<and>
         readLength (snd (writeLength n buf)) = Inr (n, spaceForLength n) \<and>
         oh_readLength (snd (writeLength n buf)) = Inr (n, spaceForLength n)"
proof -
  define r where "r = nat n"
  have n: "n = int r" and r: "0 < r" "r < 2 ^ 63" using assms by (simp_all add: r_def nat_less_iff)
  have "n < 2 ^ 64" using assms(2) by simp
  then have w: "spaceForLength n = int (length (varint r))"
    using assms(1) by (simp add: spaceForLength_pos r_def)
  then have room: "length (varint r) \<le> slice_len buf" using assms(3) by simp
  let ?b = "buf\<lparr>slice_at := put (slice_at buf) 0 (varint r)\<rparr>"
  have wl: "writeLength n buf = (Inr (int (length (varint r))), ?b)"
    unfolding n by (rule writeLength_pos [OF r(1) room])
  have h: "holds (slice_at ?b) 0 (varint r)" by (simp add: holds_put)
  have room': "length (varint r) \<le> slice_len ?b" using room by simp
  show ?thesis
    using readLength_varint [OF h room' r(2)] oh_readLength_varint [OF h room' r(2)]
    by (simp add: wl [unfolded n] w [unfolded n] n)
qed


lemma spaceForLength_formula:
  assumes "0 < n" and "n < 2 ^ 64"
  shows "spaceForLength n = max 1 ((int (bits_Len (nat n)) + 6) div 7)"
proof -
  have "1 \<le> int (length (varint (nat n)))"
    using length_varint_pos [of "nat n"] by linarith
  then have "1 \<le> spaceForLength n" using assms by (simp add: spaceForLength_pos)
  moreover have "take_bit 64 n = n" using assms by (simp add: take_bit_int_eq_self)
  ultimately show ?thesis by (simp add: spaceForLength_def)
qed

lemma spaceForLength_mono:
  assumes "take_bit 64 a \<le> take_bit 64 b"
  shows "spaceForLength a \<le> spaceForLength b"
proof -
  have "nat (take_bit 64 a) \<le> nat (take_bit 64 b)" using assms by simp
  then have "bits_Len (nat (take_bit 64 a)) \<le> bits_Len (nat (take_bit 64 b))"
    by (rule bits_Len_mono)
  then show ?thesis by (simp add: spaceForLength_def zdiv_mono1)
qed

section \<open>The arena: reserving space\<close>

lemma stringbankSize_eq: "stringbankSize = 262144"
  by (simp add: stringbankSize_def)

lemma stringbankSize_pos: "0 < stringbankSize"
  by (simp add: stringbankSize_eq)

lemma carve_ok:
  assumes "0 \<le> l" and "int (current_len s) + l \<le> int (current_cap s)"
  shows "carve l s =
    (Inr ((int (length (allocations s)) - 1) * stringbankSize + int (current_len s),
          current_len s, nat l),
     s\<lparr>current_len := current_len s + nat l\<rparr>)"
  using assms by (simp add: carve_def Let_def nat_add_distrib)

lemma carve_panic:
  assumes "0 \<le> l" and "int (current_cap s) < int (current_len s) + l"
  shows "carve l s = (Inl slice_bounds_out_of_range, s)"
  using assms by (simp add: carve_def Let_def)

lemma reserve_oh_reserve:
  "reserve l s = oh_reserve \<lparr>mem = Some zero_page, err = e\<rparr> l s"
  by (simp add: reserve_def oh_reserve_def)

lemma Save_oh_Save_general:
  "Save t s = oh_Save_general \<lparr>mem = Some zero_page, err = e\<rparr> t s"
  by (simp add: Save_def oh_Save_general_def reserve_oh_reserve [of _ _ e])

lemma oh_reserve_cases [consumes 1, case_names fits fresh nomem toolarge]:
  assumes "0 \<le> l"
  obtains
    (fits) "int (current_len s) + l \<le> int (current_cap s)"
      "oh_reserve a l s =
        (Inr ((int (length (allocations s)) - 1) * stringbankSize + int (current_len s),
              current_len s, nat l),
         s\<lparr>current_len := current_len s + nat l\<rparr>)"
  | (fresh) pg where "int (current_cap s) < int (current_len s) + l" "mem a = Some pg"
      "l \<le> stringbankSize"
      "oh_reserve a l s =
        (Inr (int (length (allocations s)) * stringbankSize, 0, nat l),
         s\<lparr>current_len := nat l, current_cap := nat stringbankSize,
           allocations := allocations s @ [pg]\<rparr>)"
  | (nomem) "int (current_cap s) < int (current_len s) + l" "mem a = None"
      "oh_reserve a l s = (Inl slice_bounds_out_of_range, s\<lparr>current_len := 0, current_cap := 0\<rparr>)"
  | (toolarge) pg where "int (current_cap s) < int (current_len s) + l" "mem a = Some pg"
      "stringbankSize < l"
      "oh_reserve a l s =
        (Inl slice_bounds_out_of_range,
         s\<lparr>current_len := 0, current_cap := nat stringbankSize,
           allocations := allocations s @ [pg]\<rparr>)"
proof (cases "int (current_len s) + l \<le> int (current_cap s)")
  case True
  then show ?thesis
    using assms by (intro fits) (simp_all add: oh_reserve_def carve_ok)
next
  case False
  then have over: "int (current_cap s) < int (current_len s) + l" by simp
  show ?thesis
  proof (cases "mem a")
    case None
    then show ?thesis using over by (intro nomem) (simp_all add: oh_reserve_def)
  next
    case (Some pg)
    show ?thesis
    proof (cases "l \<le> stringbankSize")
      case True
      let ?s1 = "s\<lparr>current_len := 0, current_cap := nat stringbankSize,
                   allocations := allocations s @ [pg]\<rparr>"
      have "carve l ?s1 =
          (Inr ((int (length (allocations ?s1)) - 1) * stringbankSize + int (current_len ?s1),
                current_len ?s1, nat l),
           ?s1\<lparr>current_len := current_len ?s1 + nat l\<rparr>)"
        using assms True stringbankSize_pos by (intro carve_ok) simp_all
      then show ?thesis
        using over Some True by (intro fresh [of pg]) (simp_all add: oh_reserve_def)
    next
      case False
      let ?s1 = "s\<lparr>current_len := 0, current_cap := nat stringbankSize,
                   allocations := allocations s @ [pg]\<rparr>"
      have "carve l ?s1 = (Inl slice_bounds_out_of_range, ?s1)"
        using assms False stringbankSize_pos by (intro carve_panic) simp_all
      then show ?thesis
        using over Some False by (intro toolarge [of pg]) (simp_all add: oh_reserve_def)
    qed
  qed
qed


lemma put_back_allocations:
  "allocations (put_back s off bs) =
     (allocations s)[length (allocations s) - 1 := put (last (allocations s)) off bs]"
proof (cases "allocations s = []")
  case True
  then show ?thesis by (simp add: put_back_def)
next
  case False
  then have "allocations s = butlast (allocations s) @ [last (allocations s)]" by simp
  then have "(allocations s)[length (allocations s) - 1 := put (last (allocations s)) off bs]
      = butlast (allocations s) @ [put (last (allocations s)) off bs]"
    by (metis length_butlast list_update_length)
  then show ?thesis using False by (simp add: put_back_def)
qed

lemma put_back_fields [simp]:
  "current_len (put_back s off bs) = current_len s"
  "current_cap (put_back s off bs) = current_cap s"
  "length (allocations (put_back s off bs)) = length (allocations s)"
  by (simp_all add: put_back_def)

lemma put_back_Nil [simp]: "put_back s off [] = s"
proof -
  have "put pg off [] = pg" for pg by (rule ext) (auto simp: put_def)
  then show ?thesis by (simp add: put_back_def)
qed

lemma put_outside: "j < off \<or> off + length bs \<le> j \<Longrightarrow> put pg off bs j = pg j"
  by (auto simp: put_def)

lemma put_inside: "k < length bs \<Longrightarrow> put pg off bs (off + k) = bs ! k"
  by (simp add: put_def)

lemma well_formed_cap_le: "well_formed s \<Longrightarrow> int (current_cap s) \<le> stringbankSize"
  using stringbankSize_pos by (auto simp: well_formed_def)

lemma extends_refl: "extends s s"
  by (simp add: extends_def)

lemma extends_trans: "extends s s' \<Longrightarrow> extends s' s'' \<Longrightarrow> extends s s''"
  by (simp add: extends_def)

lemma oh_reserve_panic:
  assumes "well_formed s" and "0 \<le> l" and "oh_reserve a l s = (Inl p, s')"
  shows "well_formed s' \<and> extends s s'"
  using assms(2)
proof (cases rule: oh_reserve_cases [where a = a and s = s])
  case fits
  then show ?thesis using assms(3) by simp
next
  case (fresh pg)
  then show ?thesis using assms(3) by simp
next
  case nomem
  then have s': "s' = s\<lparr>current_len := 0, current_cap := 0\<rparr>" using assms(3) by simp
  show ?thesis by (simp add: s' well_formed_def extends_def protected_def)
next
  case (toolarge pg)
  then have s': "s' = s\<lparr>current_len := 0, current_cap := nat stringbankSize,
      allocations := allocations s @ [pg]\<rparr>" using assms(3) by simp
  show ?thesis
    using stringbankSize_pos by (auto simp: s' well_formed_def extends_def protected_def nth_append)
qed

lemma oh_reserve_success:
  assumes "well_formed s" and "0 \<le> l" and "oh_reserve a l s = (Inr (h, off, n), s')"
    and "length bs = n"
  shows "n = nat l \<and> int (off + n) \<le> stringbankSize \<and> current_len s' = off + n \<and>
    h = (int (length (allocations s')) - 1) * stringbankSize + int off \<and>
    (0 < n \<longrightarrow> allocations s' \<noteq> []) \<and> well_formed (put_back s' off bs) \<and> extends s (put_back s' off bs)"
  using assms(2)
proof (cases rule: oh_reserve_cases [where a = a and s = s])
  case fits
  then have s': "s' = s\<lparr>current_len := current_len s + nat l\<rparr>"
    and r: "off = current_len s" "n = nat l"
      "h = (int (length (allocations s)) - 1) * stringbankSize + int (current_len s)"
    using assms(3) by simp_all
  have le: "current_len s + nat l \<le> current_cap s" using fits(1) assms(2) by linarith
  have cap: "int (current_cap s) \<le> stringbankSize" using assms(1) by (rule well_formed_cap_le)
  have ne: "0 < n \<Longrightarrow> allocations s \<noteq> []" using le r assms(1) by (auto simp: well_formed_def)
  have bound: "int (off + n) \<le> stringbankSize" using le cap r by linarith
  have wfp: "well_formed (put_back s' off bs)"
    using assms(1) le by (auto simp: well_formed_def s' put_back_def)
  have ext: "extends s (put_back s' off bs)"
    unfolding extends_def
  proof (intro allI impI)
    fix p j
    assume pr: "protected s p j"
    have z: "current_cap s = 0 \<Longrightarrow> bs = []" using le r assms(4) by simp
    have "(allocations (put_back s' off bs) ! p) j = (allocations s ! p) j"
    proof (cases "Suc p < length (allocations s)")
      case True
      then show ?thesis by (simp add: put_back_allocations s')
    next
      case False
      then have pl: "p = length (allocations s) - 1" and
        o: "j < current_len s \<or> current_cap s = 0"
        using pr by (auto simp: protected_def)
      have "put (last (allocations s)) off bs j = last (allocations s) j"
        using o z by (auto simp: put_def r)
      moreover have "allocations s \<noteq> []" using pr by (auto simp: protected_def)
      ultimately show ?thesis
        using pl by (simp add: put_back_allocations s' last_conv_nth)
    qed
    moreover have "protected (put_back s' off bs) p j"
      using pr by (auto simp: protected_def s')
    ultimately show "protected (put_back s' off bs) p j \<and>
        (allocations (put_back s' off bs) ! p) j = (allocations s ! p) j" by simp
  qed
  show ?thesis
    using r(2,3) bound ne wfp ext by (simp add: s' r(1))
next
  case (fresh pg)
  then have s': "s' = s\<lparr>current_len := nat l, current_cap := nat stringbankSize,
           allocations := allocations s @ [pg]\<rparr>"
    and r: "off = 0" "n = nat l" "h = int (length (allocations s)) * stringbankSize"
    using assms(3) by simp_all
  have wfp: "well_formed (put_back s' off bs)"
    using fresh(3) assms(2) stringbankSize_pos by (auto simp: well_formed_def s' put_back_def)
  have ext: "extends s (put_back s' off bs)"
    by (auto simp: extends_def protected_def put_back_allocations s' nth_append)
  have bound: "int (off + n) \<le> stringbankSize" using fresh(3) assms(2) r by simp
  show ?thesis
    using r(2,3) bound wfp ext by (simp add: s' r(1))
next
  case nomem
  then show ?thesis
    using assms(3) by simp
next
  case (toolarge pg)
  then show ?thesis
    using assms(3) by simp
qed

section \<open>The arena: writing a record\<close>

lemma spaceForLength_nonneg: "0 \<le> spaceForLength n"
  by (simp add: spaceForLength_def)

lemma spaceForLength_emitted:
  assumes "int L < 2 ^ 64"
  shows "spaceForLength (int L) = int (length (emitted L))"
proof (cases "L = 0")
  case True
  then show ?thesis by (simp add: emitted_def spaceForLength_zero)
next
  case False
  then show ?thesis using assms spaceForLength_pos [of "int L"] by (simp add: emitted_def)
qed

lemma general_write:
  assumes "n = length (emitted (length t)) + length t"
  shows "(case writeLength (int (length t)) (window pg off n) of
            (Inl p, small_and_80) \<Rightarrow> None
          | (Inr start, small_and_80) \<Rightarrow>
              (case copy_from small_and_80 start t of Inl p \<Rightarrow> None | Inr or_80_and_80 \<Rightarrow> Some (store pg off or_80_and_80)))
         = Some (put pg off (emitted (length t) @ t))"
proof (cases "length t = 0")
  case True
  then have t: "t = []" by simp
  have "store pg off (window pg off 0\<lparr>slice_at := \<lambda>j. slice_at (window pg off 0) j\<rparr>) = put pg off []"
    by (rule ext) (auto simp: store_def put_def window_def)
  then show ?thesis
    using assms by (simp add: t emitted_def writeLength_zero copy_from_def)
next
  case False
  define L where "L = length t"
  define W where "W = length (varint L)"
  have Lpos: "0 < L" using False by (simp add: L_def)
  have e: "emitted L = varint L" using Lpos by (simp add: emitted_def)
  have n: "n = W + L" using assms by (simp add: e W_def L_def [symmetric])
  let ?buf = "window pg off n"
  let ?small_and_80 = "?buf\<lparr>slice_at := put (slice_at ?buf) 0 (varint L)\<rparr>"
  have room: "length (varint L) \<le> slice_len ?buf" by (simp add: window_def n W_def)
  have w: "writeLength (int L) ?buf = (Inr (int W), ?small_and_80)"
    unfolding W_def by (rule writeLength_pos [OF Lpos room])
  have "(case copy_from ?small_and_80 (int W) t of Inl p \<Rightarrow> None | Inr or_80_and_80 \<Rightarrow> Some (store pg off or_80_and_80))
          = Some (put pg off (varint L @ t))"
    apply (simp add: copy_from_def window_def n)
    apply (rule ext)
    apply (auto simp: store_def put_def nth_append W_def L_def)
    done
  then show ?thesis
    unfolding L_def [symmetric] e w by simp
qed

lemma fast_write:
  assumes "n = Suc (length t)"
  shows "(case copy_from ((window pg off n)\<lparr>slice_at := (slice_at (window pg off n))(0 := b)\<rparr>) 1 t of
            Inl p \<Rightarrow> None | Inr or_80_and_80 \<Rightarrow> Some (store pg off or_80_and_80))
         = Some (put pg off (b # t))"
  apply (simp add: copy_from_def window_def assms)
  apply (rule ext)
  apply (auto simp: store_def put_def nth_Cons')
  done

lemma write_back_put_back:
  assumes "store (current_page s) off B = put (current_page s) off bs"
  shows "write_back s off B = put_back s off bs"
  using assms by (auto simp: write_back_def put_back_def current_page_def)

lemma oh_reserve_size:
  assumes "well_formed s" and "0 \<le> l" and "oh_reserve a l s = (Inr (h, off, n), s')"
  shows "n = nat l \<and> int (off + n) \<le> stringbankSize"
  using oh_reserve_success [OF assms, of "replicate n 0"] by (elim meta_impE conjE) simp_all

lemma oh_Save_general_eq:
  assumes "well_formed s"
  shows "oh_Save_general a t s =
    finish (oh_reserve a (int (length t) + spaceForLength (int (length t))) s)
      (emitted (length t) @ t)"
proof -
  define l where "l = int (length t) + spaceForLength (int (length t))"
  have l0: "0 \<le> l" using spaceForLength_nonneg [of "int (length t)"] by (simp add: l_def)
  obtain r s' where rs: "oh_reserve a l s = (r, s')" by force
  show ?thesis
  proof (cases r)
    case (Inl p)
    then show ?thesis using rs by (simp add: oh_Save_general_def l_def finish_def)
  next
    case (Inr x)
    obtain h off n where x: "x = (h, off, n)" by (cases x) auto
    have rs': "oh_reserve a l s = (Inr (h, off, n), s')" using rs Inr x by simp
    from oh_reserve_size [OF assms l0 rs'] have n: "n = nat l" and b: "int (off + n) \<le> stringbankSize"
      by blast+
    have "int (length t) \<le> l" using spaceForLength_nonneg [of "int (length t)"] by (simp add: l_def)
    then have "int (length t) \<le> stringbankSize" using n b l0 by linarith
    then have "int (length t) < 2 ^ 64" by (simp add: stringbankSize_eq)
    then have w: "spaceForLength (int (length t)) = int (length (emitted (length t)))"
      by (rule spaceForLength_emitted)
    have n': "n = length (emitted (length t)) + length t"
      using n by (simp add: l_def w nat_add_distrib)
    from general_write [OF n', of "current_page s'" off]
    obtain small_and_80 or_80_and_80 start where
      wr: "writeLength (int (length t)) (window (current_page s') off n) = (Inr start, small_and_80)" and
      cp: "copy_from small_and_80 start t = Inr or_80_and_80" and
      st: "store (current_page s') off or_80_and_80 = put (current_page s') off (emitted (length t) @ t)"
      by (auto split: prod.splits sum.splits)
    have "oh_Save_general a t s = (Inr h, write_back s' off or_80_and_80)"
      using rs' wr cp by (simp add: oh_Save_general_def l_def [symmetric])
    then show ?thesis
      using rs' write_back_put_back [OF st] by (simp add: l_def [symmetric] finish_def)
  qed
qed

lemma oh_Save_fast_eq:
  assumes "well_formed s"
  shows "oh_Save_fast a t s =
    finish (oh_reserve a (int (length t) + 1) s) (of_nat (length t) # t)"
proof -
  define l where "l = int (length t) + 1"
  have l0: "0 \<le> l" by (simp add: l_def)
  obtain r s' where rs: "oh_reserve a l s = (r, s')" by force
  show ?thesis
  proof (cases r)
    case (Inl p)
    then show ?thesis using rs by (simp add: oh_Save_fast_def l_def finish_def)
  next
    case (Inr x)
    obtain h off n where x: "x = (h, off, n)" by (cases x) auto
    have rs': "oh_reserve a l s = (Inr (h, off, n), s')" using rs Inr x by simp
    from oh_reserve_size [OF assms l0 rs'] have n: "n = nat l" by blast
    then have n': "n = Suc (length t)" by (simp add: l_def)
    from fast_write [OF n', of "current_page s'" off "of_nat (length t)"]
    obtain or_80_and_80 where
      cp: "copy_from ((window (current_page s') off n)
              \<lparr>slice_at := (slice_at (window (current_page s') off n))(0 := of_nat (length t))\<rparr>) 1 t
            = Inr or_80_and_80" and
      st: "store (current_page s') off or_80_and_80 = put (current_page s') off (of_nat (length t) # t)"
      by (auto split: sum.splits)
    have "oh_Save_fast a t s = (Inr h, write_back s' off or_80_and_80)"
      using rs' cp n' by (simp add: oh_Save_fast_def l_def [symmetric] Let_def window_def)
    then show ?thesis
      using rs' write_back_put_back [OF st] by (simp add: l_def [symmetric] finish_def)
  qed
qed

lemma finish_preserves:
  assumes "well_formed s" and "0 \<le> l" and "l \<le> stringbankSize \<Longrightarrow> int (length bs) = l"
  shows "well_formed (snd (finish (oh_reserve a l s) bs)) \<and>
    extends s (snd (finish (oh_reserve a l s) bs))"
proof -
  obtain r s' where rs: "oh_reserve a l s = (r, s')" by force
  show ?thesis
  proof (cases r)
    case (Inl p)
    then show ?thesis using oh_reserve_panic [OF assms(1,2), of a p s'] rs by (simp add: finish_def)
  next
    case (Inr x)
    obtain h off n where x: "x = (h, off, n)" by (cases x) auto
    have rs': "oh_reserve a l s = (Inr (h, off, n), s')" using rs Inr x by simp
    from oh_reserve_size [OF assms(1,2) rs'] have n: "n = nat l" "int (off + n) \<le> stringbankSize"
      by blast+
    then have "l \<le> stringbankSize" using assms(2) by linarith
    then have "length bs = n" using assms(3) n by simp
    from oh_reserve_success [OF assms(1,2) rs' this] show ?thesis by (simp add: rs' finish_def)
  qed
qed

lemma finish_fits:
  assumes "0 \<le> l" and "int (current_len s) + l \<le> int (current_cap s)"
  shows "finish (oh_reserve a l s) bs =
    (Inr ((int (length (allocations s)) - 1) * stringbankSize + int (current_len s)),
     put_back (s\<lparr>current_len := current_len s + nat l\<rparr>) (current_len s) bs)"
  using assms(1)
proof (cases rule: oh_reserve_cases [where a = a and s = s])
  case fits
  then show ?thesis by (simp add: finish_def)
qed (use assms(2) in simp_all)

lemma finish_fresh:
  assumes "0 \<le> l" and "int (current_cap s) < int (current_len s) + l" and "mem a = Some pg"
    and "l \<le> stringbankSize"
  shows "finish (oh_reserve a l s) bs =
    (Inr (int (length (allocations s)) * stringbankSize),
     s\<lparr>current_len := nat l, current_cap := nat stringbankSize,
       allocations := allocations s @ [put pg 0 bs]\<rparr>)"
  using assms(1)
proof (cases rule: oh_reserve_cases [where a = a and s = s])
  case (fresh pg')
  then show ?thesis using assms(3) by (simp add: finish_def put_back_def)
qed (use assms in simp_all)

lemma finish_nomem:
  assumes "0 \<le> l" and "int (current_cap s) < int (current_len s) + l" and "mem a = None"
  shows "finish (oh_reserve a l s) bs =
    (Inl slice_bounds_out_of_range, s\<lparr>current_len := 0, current_cap := 0\<rparr>)"
  using assms(1)
proof (cases rule: oh_reserve_cases [where a = a and s = s])
  case nomem
  then show ?thesis by (simp add: finish_def)
qed (use assms in simp_all)

lemma finish_toolarge:
  assumes "0 \<le> l" and "int (current_cap s) < int (current_len s) + l" and "mem a = Some pg"
    and "stringbankSize < l"
  shows "finish (oh_reserve a l s) bs =
    (Inl slice_bounds_out_of_range,
     s\<lparr>current_len := 0, current_cap := nat stringbankSize, allocations := allocations s @ [pg]\<rparr>)"
  using assms(1)
proof (cases rule: oh_reserve_cases [where a = a and s = s])
  case (toolarge pg')
  then show ?thesis using assms(3) by (simp add: finish_def)
qed (use assms in simp_all)

section \<open>The arena: saves keep the invariant and earlier bytes\<close>

lemma record_size:
  assumes "int (length t) + spaceForLength (int (length t)) \<le> stringbankSize"
  shows "int (length (emitted (length t))) = spaceForLength (int (length t))"
proof -
  have "int (length t) \<le> stringbankSize"
    using assms spaceForLength_nonneg [of "int (length t)"] by linarith
  then have "int (length t) < 2 ^ 64" by (simp add: stringbankSize_eq)
  then show ?thesis by (simp add: spaceForLength_emitted)
qed

lemma Save_finish:
  assumes "well_formed s"
  shows "Save t s =
    finish (oh_reserve make_page (int (length t) + spaceForLength (int (length t))) s)
      (emitted (length t) @ t)"
  using oh_Save_general_eq [OF assms, of make_page t]
  by (simp add: Save_oh_Save_general [of t s None] make_page_def)

lemma Save_preserves:
  assumes "well_formed s"
  shows "well_formed (snd (Save t s)) \<and> extends s (snd (Save t s))"
  unfolding Save_finish [OF assms]
  using spaceForLength_nonneg [of "int (length t)"]
  by (intro finish_preserves [OF assms]) (simp_all add: record_size)

lemma oh_Save_general_preserves:
  assumes "well_formed s"
  shows "well_formed (snd (oh_Save_general a t s)) \<and> extends s (snd (oh_Save_general a t s))"
  unfolding oh_Save_general_eq [OF assms]
  using spaceForLength_nonneg [of "int (length t)"]
  by (intro finish_preserves [OF assms]) (simp_all add: record_size)

lemma oh_Save_fast_preserves:
  assumes "well_formed s"
  shows "well_formed (snd (oh_Save_fast a t s)) \<and> extends s (snd (oh_Save_fast a t s))"
  unfolding oh_Save_fast_eq [OF assms]
  by (intro finish_preserves [OF assms]) simp_all

lemma oh_Save_preserves:
  assumes "well_formed s"
  shows "well_formed (snd (oh_Save a t s)) \<and> extends s (snd (oh_Save a t s))"
  using oh_Save_fast_preserves [OF assms] oh_Save_general_preserves [OF assms]
  by (simp add: oh_Save_def)

lemma save_many_preserves:
  "well_formed s \<Longrightarrow> well_formed (save_many ts s) \<and> extends s (save_many ts s)"
proof (induction ts arbitrary: s)
  case Nil
  then show ?case by (simp add: save_many_def extends_refl)
next
  case (Cons t ts)
  from Save_preserves [OF Cons.prems, of t]
  have w: "well_formed (snd (Save t s))" and e: "extends s (snd (Save t s))" by simp_all
  from Cons.IH [OF w] have "well_formed (save_many ts (snd (Save t s)))"
    and "extends (snd (Save t s)) (save_many ts (snd (Save t s)))" by simp_all
  then show ?case using e by (auto simp: save_many_def intro: extends_trans)
qed

lemma oh_save_many_preserves:
  "well_formed s \<Longrightarrow> well_formed (oh_save_many ats s) \<and> extends s (oh_save_many ats s)"
proof (induction ats arbitrary: s)
  case Nil
  then show ?case by (simp add: oh_save_many_def extends_refl)
next
  case (Cons x ats)
  obtain a t where x: "x = (a, t)" by (cases x) auto
  from oh_Save_preserves [OF Cons.prems, of a t]
  have w: "well_formed (snd (oh_Save a t s))" and e: "extends s (snd (oh_Save a t s))" by simp_all
  from Cons.IH [OF w] have "well_formed (oh_save_many ats (snd (oh_Save a t s)))"
    and "extends (snd (oh_Save a t s)) (oh_save_many ats (snd (oh_Save a t s)))" by simp_all
  then show ?case using e by (auto simp: oh_save_many_def x intro: extends_trans)
qed

lemma well_formed_empty: "well_formed empty_bank"
  by (simp add: well_formed_def empty_bank_def)

section \<open>The arena: reading a record\<close>

lemma high_clear_7F:
  assumes "(x :: byte) AND 0x80 = 0"
  shows "x AND 0x7F = x"
proof -
  have "\<not> bit x 7"
  proof
    assume b: "bit x 7"
    have "bit (x AND push_bit 7 1) 7"
      using b by (simp only: bit_and_iff bit_push_bit_iff bit_1_iff) (simp add: possible_bit_word)
    moreover have "x AND push_bit 7 1 = 0" using assms by simp
    ultimately show False by simp
  qed
  then have nb: "\<not> bit x 7" .
  have "x AND mask 7 = x"
  proof (intro bit_word_eqI)
    fix n
    assume n: "n < LENGTH(8)"
    show "bit (x AND mask 7) n \<longleftrightarrow> bit x n"
    proof (cases "n = 7")
      case True
      then show ?thesis using nb by (simp add: bit_and_iff)
    next
      case False
      then have "n < 7" using n by simp
      then show ?thesis by (simp only: bit_and_iff bit_mask_iff) (simp add: possible_bit_word)
    qed
  qed
  then show ?thesis by (simp add: mask_eq_exp_minus_1)
qed

lemma sint_ucast_byte: "sint (ucast (x :: byte) :: 64 word) = uint x"
proof -
  have "uint x < 2 ^ 8" using uint_bounded [of x] by simp
  then have "uint x < 2 ^ 63" by simp
  moreover have "(- (2 ^ 63) :: int) \<le> 0" by simp
  then have "- (2 ^ 63) \<le> uint x" using uint_nonnegative [of x] by (rule order_trans)
  ultimately have "signed_take_bit 63 (uint x) = uint x"
    by (intro signed_take_bit_int_eq_self) simp_all
  then show ?thesis by (simp add: signed_ucast_eq)
qed


lemma oh_Get_fast_general:
  assumes "0 \<le> offset" and "offset < stringbankSize" and "data (nat offset) AND 0x80 = 0"
  shows "oh_Get_fast data offset = oh_Get_general data offset"
proof -
  let ?buf = "window data (nat offset) (nat (stringbankSize - offset))"
  have len: "0 < slice_len ?buf" using assms(1,2) by (simp add: window_def)
  have at: "slice_at ?buf 0 = data (nat offset)" by (simp add: window_def)
  have "oh_readLength ?buf = Inr (uint (data (nat offset)), 1)"
    using len assms(3)
    by (subst oh_readLength_def, subst oh_readLength_loop.simps)
       (simp add: at Let_def high_clear_7F sint_ucast_byte)
  then show ?thesis
    using assms(1) uint_nonnegative [of "data (nat offset)"]
    by (simp add: oh_Get_fast_def oh_Get_general_def Let_def)
qed

lemma map_page_eq:
  assumes "\<forall>k < length t. data (a + k) = t ! k"
  shows "map data [a ..< a + length t] = t"
  using assms by (intro nth_equalityI) simp_all

lemma read_record:
  assumes "holds data off (varint (length t) @ t)"
    and "int (off + length (varint (length t)) + length t) \<le> stringbankSize"
  shows "readLength (window data off (nat (stringbankSize - int off)))
           = Inr (int (length t), int (length (varint (length t))))"
    and "oh_readLength (window data off (nat (stringbankSize - int off)))
           = Inr (int (length t), int (length (varint (length t))))"
    and "map data [off + length (varint (length t)) ..< off + length (varint (length t)) + length t] = t"
proof -
  let ?L = "length t"
  let ?W = "length (varint ?L)"
  let ?buf = "window data off (nat (stringbankSize - int off))"
  have h: "holds (slice_at ?buf) 0 (varint ?L)"
    using assms(1) by (auto simp: holds_def window_def nth_append dest!: spec)
  have room: "?W \<le> slice_len ?buf" using assms(2) by (simp add: window_def)
  have "int ?L \<le> stringbankSize" using assms(2) by linarith
  then have "int ?L < 2 ^ 63" by (simp add: stringbankSize_eq)
  then have small: "?L < 2 ^ 63" by (metis of_nat_less_iff of_nat_numeral of_nat_power)
  show "readLength ?buf = Inr (int ?L, int ?W)" by (rule readLength_varint [OF h room small])
  show "oh_readLength ?buf = Inr (int ?L, int ?W)" by (rule oh_readLength_varint [OF h room small])
  have "\<forall>k < ?L. data (off + ?W + k) = t ! k"
  proof (intro allI impI)
    fix k assume "k < ?L"
    then have "?W + k < length (varint ?L @ t)" by simp
    from assms(1) [unfolded holds_def, rule_format, OF this]
    show "data (off + ?W + k) = t ! k" by (simp add: nth_append add.assoc)
  qed
  then show "map data [off + ?W ..< off + ?W + ?L] = t" by (rule map_page_eq)
qed

lemma handle_div_mod:
  assumes "int off < stringbankSize"
  shows "(int p * stringbankSize + int off) sdiv stringbankSize = int p"
    and "(int p * stringbankSize + int off) smod stringbankSize = int off"
proof -
  have nn: "0 \<le> int p * stringbankSize + int off" using stringbankSize_pos by simp
  show "(int p * stringbankSize + int off) sdiv stringbankSize = int p"
    using assms stringbankSize_pos by (simp add: sdiv_nonneg [OF nn])
  show "(int p * stringbankSize + int off) smod stringbankSize = int off"
    using assms stringbankSize_pos by (simp add: smod_nonneg [OF nn])
qed

lemma Get_record:
  assumes "p < length (allocations s)"
    and "holds (allocations s ! p) off (varint (length t) @ t)"
    and "int (off + length (varint (length t)) + length t) \<le> stringbankSize"
  shows "Get s (int p * stringbankSize + int off) = Inr t"
proof -
  have "0 < length (varint (length t))" by (rule length_varint_pos)
  then have off: "int off < stringbankSize" using assms(3) by linarith
  have conv: "nat (int off + int (length (varint (length t)))) = off + length (varint (length t))"
    "nat (int off + int (length (varint (length t))) + int (length t))
       = off + length (varint (length t)) + length t"
    by simp_all
  show ?thesis
    using assms(1,3) off
    by (simp add: Get_def Let_def handle_div_mod [OF off] read_record [OF assms(2,3)] conv)
qed

lemma oh_Get_alt:
  "oh_Get s index =
     (let pi = index sdiv stringbankSize in
      if pi < 0 \<or> int (length (allocations s)) \<le> pi then Inl index_out_of_range
      else
        let data = allocations s ! nat pi;
            offset = index smod stringbankSize
        in if offset < 0 \<or> stringbankSize \<le> offset then Inl index_out_of_range
           else oh_Get_general data offset)"
  by (auto simp: oh_Get_def Let_def oh_Get_fast_general)

lemma oh_Get_record:
  assumes "p < length (allocations s)"
    and "holds (allocations s ! p) off (varint (length t) @ t)"
    and "int (off + length (varint (length t)) + length t) \<le> stringbankSize"
  shows "oh_Get s (int p * stringbankSize + int off) = Inr t"
proof -
  have "0 < length (varint (length t))" by (rule length_varint_pos)
  then have off: "int off < stringbankSize" using assms(3) by linarith
  have conv: "nat (int off + int (length (varint (length t)))) = off + length (varint (length t))"
    "nat (int off + int (length (varint (length t))) + int (length t))
       = off + length (varint (length t)) + length t"
    by simp_all
  show ?thesis
    using assms(1,3) off
    by (simp add: oh_Get_alt oh_Get_general_def Let_def handle_div_mod [OF off]
        read_record [OF assms(2,3)] conv)
qed

section \<open>The arena: records that stay where they were stored\<close>

lemma stored_extends:
  assumes "stored s h t" and "extends s s'"
  shows "stored s' h t"
  using assms unfolding stored_def extends_def by (metis (no_types, lifting))

lemma stored_page:
  assumes "stored s h t"
  obtains p off where "h = int p * stringbankSize + int off"
    and "p < length (allocations s)"
    and "holds (allocations s ! p) off (varint (length t) @ t)"
    and "int (off + length (varint (length t)) + length t) \<le> stringbankSize"
proof -
  from assms obtain p off where h: "h = int p * stringbankSize + int off"
    and b: "int (off + length (varint (length t)) + length t) \<le> stringbankSize"
    and k: "\<forall>k < length (varint (length t) @ t).
           protected s p (off + k) \<and>
           (allocations s ! p) (off + k) = (varint (length t) @ t) ! k"
    unfolding stored_def by blast
  have "0 < length (varint (length t) @ t)" using length_varint_pos [of "length t"] by simp
  from k [rule_format, OF this] have "p < length (allocations s)" by (simp add: protected_def)
  moreover have "holds (allocations s ! p) off (varint (length t) @ t)"
    using k by (simp add: holds_def)
  ultimately show ?thesis using h b that by blast
qed

lemma stored_Get:
  assumes "stored s h t"
  shows "Get s h = Inr t" and "oh_Get s h = Inr t"
proof -
  from assms obtain p off where h: "h = int p * stringbankSize + int off"
    and p: "p < length (allocations s)"
    and r: "holds (allocations s ! p) off (varint (length t) @ t)"
    and b: "int (off + length (varint (length t)) + length t) \<le> stringbankSize"
    by (rule stored_page)
  show "Get s h = Inr t" unfolding h by (rule Get_record [OF p r b])
  show "oh_Get s h = Inr t" unfolding h by (rule oh_Get_record [OF p r b])
qed

lemma finish_stored:
  assumes "well_formed s" and "0 \<le> l" and "int (length (varint (length t) @ t)) = l"
    and "finish (oh_reserve a l s) (varint (length t) @ t) = (Inr h, s')"
  shows "stored s' h t"
  using assms(2)
proof (cases rule: oh_reserve_cases [where a = a and s = s])
  case fits
  let ?bs = "varint (length t) @ t"
  have "int (length (varint (length t))) + int (length t) = l" using assms(3) by simp
  then have lpos: "0 < l" using length_varint_pos [of "length t"] by linarith
  have n: "nat l = length ?bs" using assms(3) by simp
  have le: "current_len s + length ?bs \<le> current_cap s" using fits(1) assms(3) by linarith
  then have cap: "int (current_cap s) = stringbankSize" and ne: "allocations s \<noteq> []"
    using assms(1) lpos n by (auto simp: well_formed_def)
  from finish_fits [OF assms(2) fits(1), of a ?bs] assms(4)
  have h: "h = (int (length (allocations s)) - 1) * stringbankSize + int (current_len s)"
    and s': "s' = put_back (s\<lparr>current_len := current_len s + nat l\<rparr>) (current_len s) ?bs"
    by simp_all
  have hp: "h = int (length (allocations s) - 1) * stringbankSize + int (current_len s)"
    using ne by (simp add: h of_nat_diff Suc_leI)
  have b: "int (current_len s + length (varint (length t)) + length t) \<le> stringbankSize"
    using le cap by simp
  have "\<forall>k < length ?bs. protected s' (length (allocations s) - 1) (current_len s + k) \<and>
       (allocations s' ! (length (allocations s) - 1)) (current_len s + k) = ?bs ! k"
    using ne n by (auto simp: s' protected_def put_back_allocations put_inside)
  then show ?thesis unfolding stored_def using hp b by blast
next
  case (fresh pg)
  let ?bs = "varint (length t) @ t"
  have n: "nat l = length ?bs" using assms(3) by simp
  from finish_fresh [OF assms(2) fresh(1,2,3), of ?bs] assms(4)
  have h: "h = int (length (allocations s)) * stringbankSize + int 0"
    and s': "s' = s\<lparr>current_len := nat l, current_cap := nat stringbankSize,
       allocations := allocations s @ [put pg 0 ?bs]\<rparr>"
    by simp_all
  have b: "int (0 + length (varint (length t)) + length t) \<le> stringbankSize"
    using fresh(3) assms(3) by simp
  have "\<forall>k < length ?bs. protected s' (length (allocations s)) (0 + k) \<and>
       (allocations s' ! (length (allocations s))) (0 + k) = ?bs ! k"
    using n put_inside [of _ ?bs pg 0] by (auto simp: s' protected_def)
  then show ?thesis unfolding stored_def using h b by blast
next
  case nomem
  then show ?thesis using assms(4) by (simp add: finish_def)
next
  case (toolarge pg)
  then show ?thesis using assms(4) by (simp add: finish_def)
qed

lemma emitted_pos: "t \<noteq> [] \<Longrightarrow> emitted (length t) = varint (length t)"
  by (simp add: emitted_def)

lemma finish_Inr_size:
  assumes "well_formed s" and "0 \<le> l" and "finish (oh_reserve a l s) bs = (Inr h, s')"
  shows "l \<le> stringbankSize"
proof -
  obtain r s0 where rs: "oh_reserve a l s = (r, s0)" by force
  show ?thesis
  proof (cases r)
    case (Inl p)
    then show ?thesis using rs assms(3) by (simp add: finish_def)
  next
    case (Inr x)
    obtain h' off n where x: "x = (h', off, n)" by (cases x) auto
    have rs': "oh_reserve a l s = (Inr (h', off, n), s0)" using rs Inr x by simp
    from oh_reserve_size [OF assms(1,2) rs'] show ?thesis using assms(2) by linarith
  qed
qed

lemma Save_stored:
  assumes "well_formed s" and "t \<noteq> []" and "Save t s = (Inr h, s')"
  shows "stored s' h t"
proof -
  let ?l = "int (length t) + spaceForLength (int (length t))"
  have l0: "0 \<le> ?l" using spaceForLength_nonneg [of "int (length t)"] by simp
  have f: "finish (oh_reserve make_page ?l s) (varint (length t) @ t) = (Inr h, s')"
    using assms(3) by (simp add: Save_finish [OF assms(1)] emitted_pos [OF assms(2)])
  from finish_Inr_size [OF assms(1) l0 f] have "?l \<le> stringbankSize" .
  then have "int (length (varint (length t) @ t)) = ?l"
    using record_size [of t] by (simp add: emitted_pos [OF assms(2)])
  from finish_stored [OF assms(1) l0 this f] show ?thesis .
qed

lemma oh_Save_finish:
  assumes "well_formed s" and "int (length t) < 2 ^ 64"
  shows "oh_Save a t s =
    finish (oh_reserve a (int (length (varint (length t) @ t))) s) (varint (length t) @ t)"
proof (cases "length t \<le> 127")
  case True
  then have "varint (length t) = [of_nat (length t)]" by (intro varint_small) simp
  then show ?thesis using True by (simp add: oh_Save_def oh_Save_fast_eq [OF assms(1)] add.commute)
next
  case False
  then have e: "emitted (length t) = varint (length t)" by (auto simp: emitted_def)
  have "spaceForLength (int (length t)) = int (length (varint (length t)))"
    using spaceForLength_emitted [OF assms(2)] by (simp add: e)
  then show ?thesis
    using False by (simp add: oh_Save_def oh_Save_general_eq [OF assms(1)] e add.commute)
qed

lemma oh_Save_Inr_size:
  assumes "well_formed s" and "oh_Save a t s = (Inr h, s')"
  shows "int (length t) < stringbankSize"
proof (cases "length t \<le> 127")
  case True
  then show ?thesis by (simp add: stringbankSize_eq)
next
  case False
  let ?l = "int (length t) + spaceForLength (int (length t))"
  have l0: "0 \<le> ?l" using spaceForLength_nonneg [of "int (length t)"] by simp
  have "finish (oh_reserve a ?l s) (emitted (length t) @ t) = (Inr h, s')"
    using assms(2) False by (simp add: oh_Save_def oh_Save_general_eq [OF assms(1)])
  from finish_Inr_size [OF assms(1) l0 this] have le: "?l \<le> stringbankSize" .
  have e: "emitted (length t) = varint (length t)" using False by (auto simp: emitted_def)
  have "1 \<le> int (length (emitted (length t)))"
    unfolding e using length_varint_pos [of "length t"] by linarith
  then have "1 \<le> spaceForLength (int (length t))" using record_size [OF le] by simp
  then show ?thesis using le by linarith
qed

lemma oh_Save_stored:
  assumes "well_formed s" and "oh_Save a t s = (Inr h, s')"
  shows "stored s' h t"
proof -
  have "int (length t) < stringbankSize" by (rule oh_Save_Inr_size [OF assms])
  then have small: "int (length t) < 2 ^ 64" by (simp add: stringbankSize_eq)
  have f: "finish (oh_reserve a (int (length (varint (length t) @ t))) s) (varint (length t) @ t)
      = (Inr h, s')"
    using assms(2) by (simp add: oh_Save_finish [OF assms(1) small])
  show ?thesis by (rule finish_stored [OF assms(1) _ refl f]) simp
qed

section \<open>The arena: what a save returns\<close>

lemma Save_fits:
  assumes "well_formed s"
    and "int (current_len s) + (int (length t) + spaceForLength (int (length t))) \<le> int (current_cap s)"
  shows "Save t s =
    (Inr ((int (length (allocations s)) - 1) * stringbankSize + int (current_len s)),
     put_back (s\<lparr>current_len := current_len s + nat (int (length t) + spaceForLength (int (length t)))\<rparr>)
       (current_len s) (emitted (length t) @ t))"
  unfolding Save_finish [OF assms(1)]
  using spaceForLength_nonneg [of "int (length t)"] assms(2) by (intro finish_fits) simp_all

lemma Save_fresh:
  assumes "well_formed s"
    and "int (current_cap s) < int (current_len s) + (int (length t) + spaceForLength (int (length t)))"
    and "int (length t) + spaceForLength (int (length t)) \<le> stringbankSize"
  shows "Save t s =
    (Inr (int (length (allocations s)) * stringbankSize),
     s\<lparr>current_len := nat (int (length t) + spaceForLength (int (length t))),
       current_cap := nat stringbankSize,
       allocations := allocations s @ [put zero_page 0 (emitted (length t) @ t)]\<rparr>)"
  unfolding Save_finish [OF assms(1)]
  using spaceForLength_nonneg [of "int (length t)"] assms(2,3)
  by (intro finish_fresh) (simp_all add: make_page_def)

lemma Save_toolarge:
  assumes "well_formed s"
    and "stringbankSize < int (length t) + spaceForLength (int (length t))"
  shows "Save t s =
    (Inl slice_bounds_out_of_range,
     s\<lparr>current_len := 0, current_cap := nat stringbankSize,
       allocations := allocations s @ [zero_page]\<rparr>)"
proof -
  have "int (current_cap s) \<le> stringbankSize" using assms(1) by (rule well_formed_cap_le)
  then have "int (current_cap s) < int (current_len s) + (int (length t) + spaceForLength (int (length t)))"
    using assms(2) by linarith
  then show ?thesis
    unfolding Save_finish [OF assms(1)]
    using spaceForLength_nonneg [of "int (length t)"] assms(2)
    by (intro finish_toolarge) (simp_all add: make_page_def)
qed

lemma oh_Save_fits:
  assumes "well_formed s"
    and "int (current_len s) + int (length (varint (length t) @ t)) \<le> int (current_cap s)"
  shows "oh_Save a t s =
    (Inr ((int (length (allocations s)) - 1) * stringbankSize + int (current_len s)),
     put_back (s\<lparr>current_len := current_len s + length (varint (length t) @ t)\<rparr>)
       (current_len s) (varint (length t) @ t))"
proof -
  have "int (current_cap s) \<le> stringbankSize" using assms(1) by (rule well_formed_cap_le)
  then have "int (length t) \<le> stringbankSize" using assms(2) by simp
  then have small: "int (length t) < 2 ^ 64" by (simp add: stringbankSize_eq)
  show ?thesis
    unfolding oh_Save_finish [OF assms(1) small]
    using finish_fits [OF _ assms(2), of a "varint (length t) @ t"] by (simp add: nat_int_add)
qed

lemma oh_Save_fresh:
  assumes "well_formed s"
    and "int (current_cap s) < int (current_len s) + int (length (varint (length t) @ t))"
    and "int (length (varint (length t) @ t)) \<le> stringbankSize"
    and "mem a = Some pg"
  shows "oh_Save a t s =
    (Inr (int (length (allocations s)) * stringbankSize),
     s\<lparr>current_len := length (varint (length t) @ t),
       current_cap := nat stringbankSize,
       allocations := allocations s @ [put pg 0 (varint (length t) @ t)]\<rparr>)"
proof -
  have "int (length t) \<le> stringbankSize" using assms(3) by simp
  then have small: "int (length t) < 2 ^ 64" by (simp add: stringbankSize_eq)
  show ?thesis
    unfolding oh_Save_finish [OF assms(1) small]
    using finish_fresh [OF _ assms(2) assms(4) assms(3), of "varint (length t) @ t"] by (simp add: nat_int_add)
qed

lemma oh_Save_nomem:
  assumes "well_formed s"
    and "int (current_cap s) < int (current_len s) + int (length (varint (length t) @ t))"
    and "int (length t) < 2 ^ 64"
    and "mem a = None"
  shows "oh_Save a t s =
    (Inl slice_bounds_out_of_range, s\<lparr>current_len := 0, current_cap := 0\<rparr>)"
  unfolding oh_Save_finish [OF assms(1,3)]
  using finish_nomem [OF _ assms(2) assms(4), of "varint (length t) @ t"] by simp

section \<open>Claims about the codec\<close>

text \<open>
  C2. Claimed: for every non-negative n, decoding what \<open>writeLength\<close> encoded gives n and
  a consumed count equal to \<open>spaceForLength n\<close>. For \<open>0 < n < 2 ^ 63\<close> this is
  \<open>codec_roundtrip_pos\<close>. At \<open>n = 0\<close> the code differs: \<open>writeLength\<close> writes no byte
  and returns 0, \<open>spaceForLength\<close> is 0, but \<open>readLength\<close> on the buffer (ten zero
  bytes, as in \<open>TestLengths\<close>) consumes one byte.
\<close>

theorem codec_zero_consumes_one_byte:
  "writeLength 0 (make_bytes 10) = (Inr 0, make_bytes 10) \<and>
   readLength (snd (writeLength 0 (make_bytes 10))) = Inr (0, 1) \<and>
   spaceForLength 0 = 0"
  by (simp add: writeLength_zero spaceForLength_zero readLength_def readLength_loop.simps
      make_bytes_def)

text \<open>
  C3. Claimed: the width of 0 is 1, the width is non-decreasing, and it equals
  \<open>max 1 (ceil (bitlength n / 7))\<close>. Monotonicity is \<open>spaceForLength_mono\<close> and the
  formula holds for \<open>0 < n\<close> (\<open>spaceForLength_formula\<close>). At 0 the code returns 0,
  where the claimed formula gives 1.
\<close>

theorem spaceForLength_at_zero:
  "spaceForLength 0 = 0 \<and> max 1 ((int (bits_Len (nat 0)) + 6) div 7) = 1"
  by (simp add: spaceForLength_def bits_Len.simps)

section \<open>The empty string in the heap package\<close>

lemma Save_empty_string_fresh: "Save [] empty_bank = (Inr (- stringbankSize), empty_bank)"
proof -
  have "Save [] empty_bank =
    (Inr ((int (length (allocations empty_bank)) - 1) * stringbankSize + int (current_len empty_bank)),
     put_back (empty_bank\<lparr>current_len := current_len empty_bank
          + nat (int (length ([] :: gostring)) + spaceForLength (int (length ([] :: gostring))))\<rparr>)
       (current_len empty_bank) (emitted (length ([] :: gostring)) @ []))"
    by (rule Save_fits [OF well_formed_empty]) (simp add: spaceForLength_zero empty_bank_def)
  then show ?thesis by (simp add: empty_bank_def spaceForLength_zero emitted_def)
qed

text \<open>
  C1. Claimed: for every string that fits a page, \<open>Get\<close> of the handle that \<open>Save\<close>
  returned yields the string, in both packages. In the heap package this holds for every
  non-empty string (\<open>Save_Get_round_trip\<close>), and in the off-heap package for every string
  (\<open>oh_Save_Get_round_trip\<close>). For the empty string the heap \<open>Save\<close> reserves no byte: on
  a fresh \<open>Stringbank\<close> no page is allocated, the handle is \<open>(0 - 1) * stringbankSize\<close>,
  and \<open>Get\<close> of it panics on \<open>s.allocations[-1]\<close>.
\<close>

theorem empty_string_on_fresh_heap_arena:
  "fst (Save [] empty_bank) = Inr (- 262144) \<and>
   Get (snd (Save [] empty_bank)) (- 262144) = Inl index_out_of_range"
  by (simp add: Save_empty_string_fresh stringbankSize_eq Get_def signed_divide_int_def)

lemma Size_empty: "Size empty_bank = 0"
  by (simp add: Size_def empty_bank_def)

text \<open>
  C9. Claimed: \<open>Size\<close> is the number of pages times \<open>stringbankSize\<close> (so by
  definition), 0 for a fresh arena, and exactly one page after one save whatever the length
  of the string. The last holds in the off-heap package (\<open>Size_after_first_oh_Save\<close>) and
  for non-empty strings in the heap package (\<open>Size_after_first_Save\<close>). After saving the
  empty string into a fresh heap \<open>Stringbank\<close> no page has been allocated and \<open>Size\<close> is
  still 0.
\<close>

theorem size_after_saving_empty_string:
  "Size empty_bank = 0 \<and> Size (snd (Save [] empty_bank)) = 0"
  by (simp add: Save_empty_string_fresh Size_empty)

lemma spaceForLength_1: "spaceForLength 1 = 1"
  by (simp add: spaceForLength_def bits_Len.simps)

lemma bytes_of_a: "bytes_of ''a'' = [97]" "bytes_of ''b'' = [98]"
  by (simp_all add: bytes_of_def)


lemma Save_a:
  "Save [97] empty_bank =
     (Inr 0, \<lparr>current_len = 2, current_cap = nat stringbankSize,
              allocations = [put zero_page 0 (varint 1 @ [97])]\<rparr>)"
proof -
  have "Save [97] empty_bank =
    (Inr (int (length (allocations empty_bank)) * stringbankSize),
     empty_bank\<lparr>current_len := nat (int (length ([97] :: gostring)) + spaceForLength (int (length ([97] :: gostring)))),
       current_cap := nat stringbankSize,
       allocations := allocations empty_bank @ [put zero_page 0 (emitted (length ([97] :: gostring)) @ [97])]\<rparr>)"
    by (rule Save_fresh [OF well_formed_empty])
       (simp_all add: spaceForLength_1 empty_bank_def stringbankSize_eq)
  then show ?thesis by (simp add: empty_bank_def spaceForLength_1 emitted_def)
qed

text \<open>
  C4. Claimed: no two saves on a live arena return the same handle, saves of the empty
  string included. Handles of later saves are greater in the off-heap package
  (\<open>oh_Save_handles_increase\<close>) and, for non-empty strings, in the heap package
  (\<open>Save_handles_increase\<close>). In the heap package a save of the empty string reserves no
  byte, so the next save returns the same handle: after \<open>Save "a"\<close>, both \<open>Save ""\<close> and
  the following \<open>Save "b"\<close> return 2, and \<open>Get\<close> of 2 then returns "b".
\<close>

theorem empty_string_handle_is_reused:
  "fst (Save [] (snd (Save (bytes_of ''a'') empty_bank))) = Inr 2 \<and>
   fst (Save (bytes_of ''b'') (snd (Save [] (snd (Save (bytes_of ''a'') empty_bank))))) = Inr 2 \<and>
   Get (snd (Save (bytes_of ''b'') (snd (Save [] (snd (Save (bytes_of ''a'') empty_bank)))))) 2
     = Inr (bytes_of ''b'')"
proof -
  let ?s1 = "\<lparr>current_len = 2, current_cap = nat stringbankSize,
              allocations = [put zero_page 0 (varint 1 @ [97])]\<rparr>"
  have w1: "well_formed ?s1" by (simp add: well_formed_def stringbankSize_eq)
  have e: "Save [] ?s1 = (Inr 2, ?s1)"
    using Save_fits [OF w1, of "[]"] by (simp add: spaceForLength_zero emitted_def stringbankSize_eq)
  have b: "fst (Save [98] ?s1) = Inr 2"
    using Save_fits [OF w1, of "[98]"] by (simp add: spaceForLength_1 stringbankSize_eq)
  then have "Save [98] ?s1 = (Inr 2, snd (Save [98] ?s1))" by (simp add: prod_eq_iff)
  then have "stored (snd (Save [98] ?s1)) 2 [98]" by (intro Save_stored [OF w1]) simp_all
  then have g: "Get (snd (Save [98] ?s1)) 2 = Inr [98]" by (rule stored_Get)
  show ?thesis unfolding bytes_of_a Save_a snd_conv e b g by simp
qed

section \<open>Earlier records after later saves\<close>

lemma spaceForLength_small: "0 < n \<Longrightarrow> n < 128 \<Longrightarrow> spaceForLength n = 1"
  using spaceForLength_pos [of n] varint_small [of "nat n"] by simp

lemma stored_byte_at:
  assumes "stored s h t" and "extends s s'" and "0 \<le> k"
    and "k < int (length (varint (length t) @ t))"
  shows "byte_at s' (h + k) = byte_at s (h + k)"
proof -
  from assms(1) obtain p off where h: "h = int p * stringbankSize + int off"
    and b: "int (off + length (varint (length t)) + length t) \<le> stringbankSize"
    and r: "\<forall>k < length (varint (length t) @ t).
           protected s p (off + k) \<and>
           (allocations s ! p) (off + k) = (varint (length t) @ t) ! k"
    unfolding stored_def by blast
  have kk: "nat k < length (varint (length t) @ t)" using assms(3,4) by linarith
  have "int off + k < stringbankSize" using assms(4) b by simp
  moreover have "int (off + nat k) = int off + k" using assms(3) by simp
  ultimately have "int (off + nat k) < stringbankSize" by simp
  from handle_div_mod [OF this, of p]
  have "(h + k) sdiv stringbankSize = int p" "(h + k) smod stringbankSize = int (off + nat k)"
    using assms(3) by (simp_all add: h add.assoc)
  then have d: "nat ((h + k) sdiv stringbankSize) = p"
    "nat ((h + k) smod stringbankSize) = off + nat k"
    by (simp_all only: nat_int)
  from r kk have "protected s p (off + nat k)" by blast
  with assms(2) have "(allocations s' ! p) (off + nat k) = (allocations s ! p) (off + nat k)"
    by (simp add: extends_def)
  then show ?thesis by (simp only: byte_at_def d)
qed

lemma Save_Get_later:
  assumes "well_formed s" and "t \<noteq> []" and "Save t s = (Inr h, s1)"
  shows "Get (save_many ts s1) h = Inr t"
proof -
  have w1: "well_formed s1" using Save_preserves [OF assms(1), of t] assms(3) by simp
  have "stored s1 h t" by (rule Save_stored [OF assms])
  moreover have "extends s1 (save_many ts s1)" using save_many_preserves [OF w1] by simp
  ultimately have "stored (save_many ts s1) h t" by (rule stored_extends)
  then show ?thesis by (rule stored_Get)
qed

lemma Save_bytes_later:
  assumes "well_formed s" and "Save t s = (Inr h, s1)" and "0 \<le> k"
    and "k < int (length t) + spaceForLength (int (length t))"
  shows "byte_at (save_many ts s1) (h + k) = byte_at s1 (h + k)"
proof (cases "t = []")
  case True
  then show ?thesis using assms(3,4) by (simp add: spaceForLength_zero)
next
  case False
  let ?l = "int (length t) + spaceForLength (int (length t))"
  have l0: "0 \<le> ?l" using spaceForLength_nonneg [of "int (length t)"] by simp
  have "finish (oh_reserve make_page ?l s) (emitted (length t) @ t) = (Inr h, s1)"
    using assms(2) by (simp add: Save_finish [OF assms(1)])
  from finish_Inr_size [OF assms(1) l0 this] have "?l \<le> stringbankSize" .
  then have n: "int (length (varint (length t) @ t)) = ?l"
    using record_size [of t] by (simp add: emitted_pos [OF False])
  have w1: "well_formed s1" using Save_preserves [OF assms(1), of t] assms(2) by simp
  have st: "stored s1 h t" by (rule Save_stored [OF assms(1) False assms(2)])
  have ex: "extends s1 (save_many ts s1)" using save_many_preserves [OF w1] by simp
  show ?thesis by (rule stored_byte_at [OF st ex assms(3)]) (use assms(4) n in simp)
qed

lemma Save_fresh_summary:
  assumes "well_formed s"
    and "int (current_cap s) < int (current_len s) + (int (length t) + spaceForLength (int (length t)))"
    and "int (length t) + spaceForLength (int (length t)) \<le> stringbankSize"
  shows "fst (Save t s) = Inr (int (length (allocations s)) * stringbankSize)"
    and "current_len (snd (Save t s)) = nat (int (length t) + spaceForLength (int (length t)))"
    and "current_cap (snd (Save t s)) = nat stringbankSize"
    and "length (allocations (snd (Save t s))) = Suc (length (allocations s))"
  by (simp_all add: Save_fresh [OF assms])

lemma Save_fits_summary:
  assumes "well_formed s"
    and "int (current_len s) + (int (length t) + spaceForLength (int (length t))) \<le> int (current_cap s)"
  shows "fst (Save t s) = Inr ((int (length (allocations s)) - 1) * stringbankSize + int (current_len s))"
    and "current_len (snd (Save t s)) = current_len s + nat (int (length t) + spaceForLength (int (length t)))"
    and "current_cap (snd (Save t s)) = current_cap s"
    and "length (allocations (snd (Save t s))) = length (allocations s)"
  by (simp_all add: Save_fits [OF assms])

lemma save_many_Cons: "save_many (t # ts) s = save_many ts (snd (Save t s))"
  by (simp add: save_many_def)

lemma hello_goodbye_cheese:
  fixes ts :: "gostring list"
  defines "a \<equiv> snd (Save (bytes_of ''hello'') empty_bank)"
  defines "b \<equiv> snd (Save (bytes_of ''goodbye'') a)"
  defines "c \<equiv> snd (Save (bytes_of ''cheese'') b)"
  shows "fst (Save (bytes_of ''hello'') empty_bank) = Inr 0 \<and>
       fst (Save (bytes_of ''goodbye'') a) = Inr 6 \<and>
       fst (Save (bytes_of ''cheese'') b) = Inr 14 \<and>
       Get (save_many ts c) 0 = Inr (bytes_of ''hello'') \<and>
       Get (save_many ts c) 6 = Inr (bytes_of ''goodbye'') \<and>
       Get (save_many ts c) 14 = Inr (bytes_of ''cheese'')"
proof -
  have len: "length (bytes_of ''hello'') = 5" "length (bytes_of ''goodbye'') = 7"
    "length (bytes_of ''cheese'') = 6"
    by (simp_all add: bytes_of_def)
  have ne: "bytes_of ''hello'' \<noteq> []" "bytes_of ''goodbye'' \<noteq> []" "bytes_of ''cheese'' \<noteq> []"
    by (simp_all add: bytes_of_def)
  have sp: "spaceForLength 5 = 1" "spaceForLength 7 = 1" "spaceForLength 6 = 1"
    by (simp_all add: spaceForLength_small)
  have w0: "well_formed empty_bank" by (rule well_formed_empty)
  have e0: "current_len empty_bank = 0" "current_cap empty_bank = 0" "allocations empty_bank = []"
    by (simp_all add: empty_bank_def)
  have a: "fst (Save (bytes_of ''hello'') empty_bank) = Inr 0" "current_len a = 6"
    "current_cap a = nat stringbankSize" "length (allocations a) = 1"
    unfolding a_def
    using Save_fresh_summary [OF w0, of "bytes_of ''hello''"]
    by (simp_all add: len sp e0 stringbankSize_eq)
  have wa: "well_formed a" unfolding a_def using Save_preserves [OF w0] by simp
  have b: "fst (Save (bytes_of ''goodbye'') a) = Inr 6" "current_len b = 14"
    "current_cap b = nat stringbankSize" "length (allocations b) = 1"
    unfolding b_def
    using Save_fits_summary [OF wa, of "bytes_of ''goodbye''"]
    by (simp_all add: len sp a stringbankSize_eq)
  have wb: "well_formed b" unfolding b_def using Save_preserves [OF wa] by simp
  have c: "fst (Save (bytes_of ''cheese'') b) = Inr 14"
    using Save_fits_summary [OF wb, of "bytes_of ''cheese''"]
    by (simp_all add: len sp b stringbankSize_eq)
  have sa: "Save (bytes_of ''hello'') empty_bank = (Inr 0, a)"
    using a(1) by (simp add: a_def prod_eq_iff)
  have sb: "Save (bytes_of ''goodbye'') a = (Inr 6, b)"
    using b(1) by (simp add: b_def prod_eq_iff)
  have sc: "Save (bytes_of ''cheese'') b = (Inr 14, c)"
    using c(1) by (simp add: c_def prod_eq_iff)
  have "Get (save_many (bytes_of ''goodbye'' # bytes_of ''cheese'' # ts) a) 0 = Inr (bytes_of ''hello'')"
    by (rule Save_Get_later [OF w0 ne(1) sa])
  then have ga: "Get (save_many ts c) 0 = Inr (bytes_of ''hello'')"
    by (simp add: save_many_Cons b_def c_def)
  have "Get (save_many (bytes_of ''cheese'' # ts) b) 6 = Inr (bytes_of ''goodbye'')"
    by (rule Save_Get_later [OF wa ne(2) sb])
  then have gb: "Get (save_many ts c) 6 = Inr (bytes_of ''goodbye'')"
    by (simp add: save_many_Cons c_def)
  have gc: "Get (save_many ts c) 14 = Inr (bytes_of ''cheese'')"
    by (rule Save_Get_later [OF wb ne(3) sc])
  show ?thesis using a(1) b(1) c(1) ga gb gc by simp
qed

text \<open>
  C5. Saving further strings leaves every previously written record unchanged. For a save
  that returned handle \<open>h\<close> in a well-formed heap \<open>Stringbank\<close>, every byte of its record
  (length prefix and payload) is the same after any list \<open>ts\<close> of further saves, and, the
  record being non-empty, \<open>Get\<close> of \<open>h\<close> still returns the string. In particular after
  saving "hello", "goodbye" and "cheese" into a fresh \<open>Stringbank\<close> the handles are 0, 6
  and 14, and after any further saves \<open>Get\<close> returns the three strings.
\<close>

theorem later_saves_keep_earlier_records:
  "(well_formed s \<and> Save t s = (Inr h, s1) \<longrightarrow>
      (\<forall>k. 0 \<le> k \<and> k < int (length t) + spaceForLength (int (length t)) \<longrightarrow>
         byte_at (save_many ts s1) (h + k) = byte_at s1 (h + k)) \<and>
      (t \<noteq> [] \<longrightarrow> Get (save_many ts s1) h = Inr t)) \<and>
   (let a = snd (Save (bytes_of ''hello'') empty_bank);
        b = snd (Save (bytes_of ''goodbye'') a);
        c = snd (Save (bytes_of ''cheese'') b)
    in fst (Save (bytes_of ''hello'') empty_bank) = Inr 0 \<and>
       fst (Save (bytes_of ''goodbye'') a) = Inr 6 \<and>
       fst (Save (bytes_of ''cheese'') b) = Inr 14 \<and>
       Get (save_many ts c) 0 = Inr (bytes_of ''hello'') \<and>
       Get (save_many ts c) 6 = Inr (bytes_of ''goodbye'') \<and>
       Get (save_many ts c) 14 = Inr (bytes_of ''cheese''))"
proof (intro conjI impI allI)
  fix k
  assume "well_formed s \<and> Save t s = (Inr h, s1)"
    and "0 \<le> k \<and> k < int (length t) + spaceForLength (int (length t))"
  then show "byte_at (save_many ts s1) (h + k) = byte_at s1 (h + k)"
    using Save_bytes_later [of s t h s1 k ts] by blast
next
  assume "well_formed s \<and> Save t s = (Inr h, s1)" and "t \<noteq> []"
  then show "Get (save_many ts s1) h = Inr t"
    using Save_Get_later [of s t h s1 ts] by blast
next
  show "let a = snd (Save (bytes_of ''hello'') empty_bank);
        b = snd (Save (bytes_of ''goodbye'') a);
        c = snd (Save (bytes_of ''cheese'') b)
    in fst (Save (bytes_of ''hello'') empty_bank) = Inr 0 \<and>
       fst (Save (bytes_of ''goodbye'') a) = Inr 6 \<and>
       fst (Save (bytes_of ''cheese'') b) = Inr 14 \<and>
       Get (save_many ts c) 0 = Inr (bytes_of ''hello'') \<and>
       Get (save_many ts c) 6 = Inr (bytes_of ''goodbye'') \<and>
       Get (save_many ts c) 14 = Inr (bytes_of ''cheese'')"
    unfolding Let_def by (rule hello_goodbye_cheese)
qed

text \<open>
  The theorem at the fresh \<open>Stringbank\<close>, "hello" and three further saves, one of them
  of the empty string.
\<close>

theorem later_saves_keep_earlier_records_witness:
  "well_formed empty_bank \<and>
   fst (Save (bytes_of ''hello'') empty_bank) = Inr 0 \<and>
   Get (save_many [bytes_of ''goodbye'', [], bytes_of ''cheese'']
          (snd (Save (bytes_of ''hello'') empty_bank))) 0 = Inr (bytes_of ''hello'') \<and>
   byte_at (save_many [bytes_of ''goodbye'', [], bytes_of ''cheese'']
          (snd (Save (bytes_of ''hello'') empty_bank))) (0 + 5)
     = byte_at (snd (Save (bytes_of ''hello'') empty_bank)) (0 + 5)"
proof -
  let ?ts = "[bytes_of ''goodbye'', [], bytes_of ''cheese'']"
  let ?s1 = "snd (Save (bytes_of ''hello'') empty_bank)"
  have w: "well_formed empty_bank" by (rule well_formed_empty)
  have f: "fst (Save (bytes_of ''hello'') empty_bank) = Inr 0"
    using hello_goodbye_cheese [of "[]"] by simp
  then have e: "Save (bytes_of ''hello'') empty_bank = (Inr 0, ?s1)" by (simp add: prod_eq_iff)
  have ne: "bytes_of ''hello'' \<noteq> []" by (simp add: bytes_of_def)
  have k: "(0 :: int) \<le> 5 \<and> 5 < int (length (bytes_of ''hello'')) + spaceForLength (int (length (bytes_of ''hello'')))"
    by (simp add: bytes_of_def spaceForLength_small)
  note inst = later_saves_keep_earlier_records [of empty_bank "bytes_of ''hello''" 0 ?s1 ?ts,
      THEN conjunct1, rule_format, OF conjI [OF w e]]
  from inst [THEN conjunct1, rule_format, OF k] inst [THEN conjunct2, rule_format, OF ne] w f
  show ?thesis by simp
qed

section \<open>Records and pages\<close>

lemma stored_same_page:
  assumes "stored s h t" and "0 \<le> k" and "k < int (length (varint (length t) @ t))"
  shows "(h + k) sdiv stringbankSize = h sdiv stringbankSize"
proof -
  from assms(1) obtain p off where h: "h = int p * stringbankSize + int off"
    and b: "int (off + length (varint (length t)) + length t) \<le> stringbankSize"
    unfolding stored_def by blast
  have "int off + k < stringbankSize" using assms(3) b by simp
  moreover have "int (off + nat k) = int off + k" using assms(2) by simp
  ultimately have "int (off + nat k) < stringbankSize" by simp
  from handle_div_mod(1) [OF this, of p]
  have 1: "(h + k) sdiv stringbankSize = int p" using assms(2) by (simp add: h add.assoc)
  have "int off < stringbankSize" using b length_varint_pos [of "length t"] by linarith
  from handle_div_mod(1) [OF this, of p] have "h sdiv stringbankSize = int p" by (simp add: h)
  with 1 show ?thesis by simp
qed

lemma earlier_pages_fixed:
  assumes "extends s s'" and "Suc p < length (allocations s)"
  shows "allocations s' ! p = allocations s ! p"
proof (rule ext)
  fix j
  have "protected s p j" using assms(2) by (simp add: protected_def)
  with assms(1) show "(allocations s' ! p) j = (allocations s ! p) j" by (simp add: extends_def)
qed

lemma Save_succeeds:
  assumes "well_formed s"
    and "int (length t) + spaceForLength (int (length t)) \<le> stringbankSize"
  shows "\<exists>h s'. Save t s = (Inr h, s')"
proof (cases "int (current_len s) + (int (length t) + spaceForLength (int (length t))) \<le> int (current_cap s)")
  case True
  from Save_fits [OF assms(1) True] show ?thesis by blast
next
  case False
  then have "int (current_cap s) < int (current_len s) + (int (length t) + spaceForLength (int (length t)))"
    by simp
  from Save_fresh [OF assms(1) this assms(2)] show ?thesis by blast
qed

lemma oh_Save_succeeds:
  assumes "well_formed s"
    and "int (length (varint (length t) @ t)) \<le> stringbankSize"
    and "mem a = Some pg"
  shows "\<exists>h s'. oh_Save a t s = (Inr h, s')"
proof (cases "int (current_len s) + int (length (varint (length t) @ t)) \<le> int (current_cap s)")
  case True
  from oh_Save_fits [OF assms(1) True] show ?thesis by blast
next
  case False
  then have "int (current_cap s) < int (current_len s) + int (length (varint (length t) @ t))"
    by simp
  from oh_Save_fresh [OF assms(1) this assms(2,3)] show ?thesis by blast
qed

lemma Save_in_one_page:
  assumes "well_formed s" and "n = int (length t) + spaceForLength (int (length t))"
    and "n \<le> stringbankSize"
  shows "\<exists>h s'. Save t s = (Inr h, s') \<and>
         (\<forall>k. 0 \<le> k \<and> k < n \<longrightarrow> (h + k) sdiv stringbankSize = h sdiv stringbankSize) \<and>
         (t \<noteq> [] \<longrightarrow> stored s' h t) \<and>
         (int (current_cap s) - int (current_len s) < n \<longrightarrow>
            h = int (length (allocations s)) * stringbankSize \<and>
            allocations s' = allocations s @ [put zero_page 0 (emitted (length t) @ t)] \<and>
            (\<forall>ts p. p < length (allocations s) \<longrightarrow>
               allocations (save_many ts s') ! p = allocations s ! p))"
proof -
  from Save_succeeds [OF assms(1) assms(3) [unfolded assms(2)]]
  obtain h s' where e: "Save t s = (Inr h, s')" by blast
  have w': "well_formed s'" using Save_preserves [OF assms(1), of t] e by simp
  have st: "t \<noteq> [] \<Longrightarrow> stored s' h t" by (rule Save_stored [OF assms(1) _ e])
  have sz: "t \<noteq> [] \<Longrightarrow> int (length (varint (length t) @ t)) = n"
    using record_size [OF assms(3) [unfolded assms(2)]] by (simp add: assms(2) emitted_pos)
  have one: "\<forall>k. 0 \<le> k \<and> k < n \<longrightarrow> (h + k) sdiv stringbankSize = h sdiv stringbankSize"
  proof (cases "t = []")
    case True
    then show ?thesis by (simp add: assms(2) spaceForLength_zero)
  next
    case False
    then show ?thesis using stored_same_page [OF st [OF False]] sz [OF False] by simp
  qed
  have fresh: "h = int (length (allocations s)) * stringbankSize \<and>
            allocations s' = allocations s @ [put zero_page 0 (emitted (length t) @ t)] \<and>
            (\<forall>ts p. p < length (allocations s) \<longrightarrow>
               allocations (save_many ts s') ! p = allocations s ! p)"
    if over: "int (current_cap s) - int (current_len s) < n"
  proof -
    have "int (current_cap s) < int (current_len s) + (int (length t) + spaceForLength (int (length t)))"
      using over by (simp add: assms(2))
    from Save_fresh [OF assms(1) this assms(3) [unfolded assms(2)]] e
    have h: "h = int (length (allocations s)) * stringbankSize"
      and a: "allocations s' = allocations s @ [put zero_page 0 (emitted (length t) @ t)]"
      by simp_all
    have "allocations (save_many ts s') ! p = allocations s ! p" if "p < length (allocations s)" for ts p
    proof -
      have "extends s' (save_many ts s')" using save_many_preserves [OF w'] by simp
      moreover have "Suc p < length (allocations s')" using that by (simp add: a)
      ultimately have "allocations (save_many ts s') ! p = allocations s' ! p"
        by (rule earlier_pages_fixed)
      then show ?thesis using that by (simp add: a nth_append)
    qed
    then show ?thesis using h a by blast
  qed
  show ?thesis using e one st fresh by blast
qed

lemma oh_Save_in_one_page:
  assumes "well_formed s" and "m = int (length (varint (length t) @ t))"
    and "m \<le> stringbankSize" and "mem a = Some pg"
  shows "\<exists>h s'. oh_Save a t s = (Inr h, s') \<and>
         (\<forall>k. 0 \<le> k \<and> k < m \<longrightarrow> (h + k) sdiv stringbankSize = h sdiv stringbankSize) \<and>
         stored s' h t \<and>
         (int (current_cap s) - int (current_len s) < m \<longrightarrow>
            h = int (length (allocations s)) * stringbankSize \<and>
            allocations s' = allocations s @ [put pg 0 (varint (length t) @ t)] \<and>
            (\<forall>ats p. p < length (allocations s) \<longrightarrow>
               allocations (oh_save_many ats s') ! p = allocations s ! p))"
proof -
  from oh_Save_succeeds [OF assms(1) assms(3) [unfolded assms(2)] assms(4)]
  obtain h s' where e: "oh_Save a t s = (Inr h, s')" by blast
  have w': "well_formed s'" using oh_Save_preserves [OF assms(1), of a t] e by simp
  have st: "stored s' h t" by (rule oh_Save_stored [OF assms(1) e])
  have one: "\<forall>k. 0 \<le> k \<and> k < m \<longrightarrow> (h + k) sdiv stringbankSize = h sdiv stringbankSize"
    using stored_same_page [OF st] by (simp add: assms(2))
  have fresh: "h = int (length (allocations s)) * stringbankSize \<and>
            allocations s' = allocations s @ [put pg 0 (varint (length t) @ t)] \<and>
            (\<forall>ats p. p < length (allocations s) \<longrightarrow>
               allocations (oh_save_many ats s') ! p = allocations s ! p)"
    if over: "int (current_cap s) - int (current_len s) < m"
  proof -
    have "int (current_cap s) < int (current_len s) + int (length (varint (length t) @ t))"
      using over by (simp add: assms(2))
    from oh_Save_fresh [OF assms(1) this assms(3) [unfolded assms(2)] assms(4)] e
    have h: "h = int (length (allocations s)) * stringbankSize"
      and a: "allocations s' = allocations s @ [put pg 0 (varint (length t) @ t)]"
      by simp_all
    have "allocations (oh_save_many ats s') ! p = allocations s ! p"
      if "p < length (allocations s)" for ats p
    proof -
      have "extends s' (oh_save_many ats s')" using oh_save_many_preserves [OF w'] by simp
      moreover have "Suc p < length (allocations s')" using that by (simp add: a)
      ultimately have "allocations (oh_save_many ats s') ! p = allocations s' ! p"
        by (rule earlier_pages_fixed)
      then show ?thesis using that by (simp add: a nth_append)
    qed
    then show ?thesis using h a by blast
  qed
  show ?thesis using e one st fresh by blast
qed

text \<open>
  C6. A record never spans two pages. In a well-formed \<open>Stringbank\<close>, a save whose record
  (length prefix and payload, \<open>n\<close> bytes, at most a page) is given a handle \<open>h\<close> such that
  all \<open>n\<close> addresses from \<open>h\<close> on decode to the same page, and the record stands there.
  When the rest of the current page is smaller than \<open>n\<close>, a fresh page is appended, the
  record is written at its start and nowhere else, and no later save changes any byte of
  the pages there were before, the unused tail of the previous page included. First the
  heap package, then the off-heap package with an allocation that returns memory.
\<close>

theorem record_never_spans_pages:
  "(well_formed s \<and> n = int (length t) + spaceForLength (int (length t)) \<and>
      n \<le> stringbankSize \<longrightarrow>
      (\<exists>h s'. Save t s = (Inr h, s') \<and>
         (\<forall>k. 0 \<le> k \<and> k < n \<longrightarrow> (h + k) sdiv stringbankSize = h sdiv stringbankSize) \<and>
         (t \<noteq> [] \<longrightarrow> stored s' h t) \<and>
         (int (current_cap s) - int (current_len s) < n \<longrightarrow>
            h = int (length (allocations s)) * stringbankSize \<and>
            allocations s' = allocations s @ [put zero_page 0 (emitted (length t) @ t)] \<and>
            (\<forall>ts p. p < length (allocations s) \<longrightarrow>
               allocations (save_many ts s') ! p = allocations s ! p)))) \<and>
   (well_formed s \<and> m = int (length (varint (length t) @ t)) \<and>
      m \<le> stringbankSize \<and> mem a = Some pg \<longrightarrow>
      (\<exists>h s'. oh_Save a t s = (Inr h, s') \<and>
         (\<forall>k. 0 \<le> k \<and> k < m \<longrightarrow> (h + k) sdiv stringbankSize = h sdiv stringbankSize) \<and>
         stored s' h t \<and>
         (int (current_cap s) - int (current_len s) < m \<longrightarrow>
            h = int (length (allocations s)) * stringbankSize \<and>
            allocations s' = allocations s @ [put pg 0 (varint (length t) @ t)] \<and>
            (\<forall>ats p. p < length (allocations s) \<longrightarrow>
               allocations (oh_save_many ats s') ! p = allocations s ! p))))"
  using Save_in_one_page [of s n t] oh_Save_in_one_page [of s m t a pg] by blast

lemma spaceForLength_262140: "spaceForLength 262140 = 3"
  by (simp add: spaceForLength_def bits_Len.simps)

text \<open>
  The theorem where a page is nearly full: after a string of 262140 bytes the current page
  has one byte left, and "hello" goes to the start of the second page; and in the off-heap
  package at the first save, of the empty string.
\<close>

theorem record_never_spans_pages_witness:
  "fst (Save (bytes_of ''hello'') (snd (Save (replicate 262140 0) empty_bank))) = Inr 262144 \<and>
   stored (snd (Save (bytes_of ''hello'') (snd (Save (replicate 262140 0) empty_bank))))
     262144 (bytes_of ''hello'') \<and>
   allocations (save_many [bytes_of ''goodbye'']
       (snd (Save (bytes_of ''hello'') (snd (Save (replicate 262140 0) empty_bank))))) ! 0
     = allocations (snd (Save (replicate 262140 0) empty_bank)) ! 0 \<and>
   fst (oh_Save make_page [] empty_bank) = Inr 0 \<and>
   stored (snd (oh_Save make_page [] empty_bank)) 0 []"
proof -
  let ?big = "replicate 262140 (0 :: byte)"
  let ?s1 = "snd (Save ?big empty_bank)"
  let ?hello = "bytes_of ''hello''"
  have w0: "well_formed empty_bank" by (rule well_formed_empty)
  have e0: "current_len empty_bank = 0" "current_cap empty_bank = 0" "allocations empty_bank = []"
    by (simp_all add: empty_bank_def)
  have s1: "current_len ?s1 = 262143" "current_cap ?s1 = 262144" "length (allocations ?s1) = 1"
    using Save_fresh_summary [OF w0, of ?big]
    by (simp_all add: spaceForLength_262140 e0 stringbankSize_eq)
  have w1: "well_formed ?s1" using Save_preserves [OF w0] by simp
  have n: "(6 :: int) = int (length ?hello) + spaceForLength (int (length ?hello))"
    "(6 :: int) \<le> stringbankSize"
    by (simp_all add: bytes_of_def spaceForLength_small stringbankSize_eq)
  have ne: "?hello \<noteq> []" by (simp add: bytes_of_def)
  have over: "int (current_cap ?s1) - int (current_len ?s1) < 6" by (simp add: s1)
  from record_never_spans_pages [of ?s1 6 ?hello, THEN conjunct1, rule_format, OF conjI [OF w1 conjI [OF n]]]
  obtain h s' where a: "Save ?hello ?s1 = (Inr h, s')"
    and b: "?hello \<noteq> [] \<longrightarrow> stored s' h ?hello"
    and c: "int (current_cap ?s1) - int (current_len ?s1) < 6 \<longrightarrow>
            h = int (length (allocations ?s1)) * stringbankSize \<and>
            allocations s' = allocations ?s1 @ [put zero_page 0 (emitted (length ?hello) @ ?hello)] \<and>
            (\<forall>ts p. p < length (allocations ?s1) \<longrightarrow>
               allocations (save_many ts s') ! p = allocations ?s1 ! p)"
    by blast
  from c over have h: "h = 262144"
    and later: "\<forall>ts p. p < length (allocations ?s1) \<longrightarrow>
               allocations (save_many ts s') ! p = allocations ?s1 ! p"
    by (simp_all add: s1 stringbankSize_eq)
  have heap: "fst (Save ?hello ?s1) = Inr 262144 \<and> stored (snd (Save ?hello ?s1)) 262144 ?hello \<and>
      allocations (save_many [bytes_of ''goodbye''] (snd (Save ?hello ?s1))) ! 0 = allocations ?s1 ! 0"
    using a b ne later [rule_format, of 0 "[bytes_of ''goodbye'']"] by (simp add: h s1)
  have m: "(1 :: int) = int (length (varint (length ([] :: gostring)) @ []))"
    "(1 :: int) \<le> stringbankSize" "mem make_page = Some zero_page"
    by (simp_all add: varint_small stringbankSize_eq make_page_def)
  from record_never_spans_pages [of empty_bank _ "[]" 1 make_page zero_page, THEN conjunct2, rule_format,
      OF conjI [OF w0 conjI [OF m(1) conjI [OF m(2,3)]]]]
  obtain h2 s2 where a2: "oh_Save make_page [] empty_bank = (Inr h2, s2)"
    and b2: "stored s2 h2 []"
    and c2: "int (current_cap empty_bank) - int (current_len empty_bank) < 1 \<longrightarrow>
            h2 = int (length (allocations empty_bank)) * stringbankSize"
    by blast
  from c2 have "h2 = 0" by (simp add: e0)
  then have off: "fst (oh_Save make_page [] empty_bank) = Inr 0 \<and>
      stored (snd (oh_Save make_page [] empty_bank)) 0 []"
    using a2 b2 by simp
  show ?thesis using heap off by blast
qed

section \<open>Allocation errors in the off-heap package\<close>

lemma oh_reserve_err_irrelevant: "oh_reserve (a\<lparr>err := e\<rparr>) l s = oh_reserve a l s"
  by (simp add: oh_reserve_def)

lemma oh_Save_err_irrelevant: "oh_Save (a\<lparr>err := e\<rparr>) t s = oh_Save a t s"
  by (simp add: oh_Save_def oh_Save_fast_def oh_Save_general_def oh_reserve_err_irrelevant)

text \<open>
  C7. Claimed: in the off-heap package an error reported by the allocation made during a
  save is propagated to the caller of \<open>Save\<close>. \<open>Save\<close> returns an \<open>int\<close> only, and
  \<open>reserve\<close> assigns the error to the blank identifier. On a fresh \<open>Stringbank\<close>, when the
  allocation returns no memory, \<open>Save\<close> ends in the same slice-bounds panic whether the
  error was 12 or 22; when it returns memory together with an error, \<open>Save\<close> returns
  handle 0 as it does without the error.
\<close>

theorem allocation_error_is_dropped:
  "fst (oh_Save \<lparr>mem = None, err = Some 12\<rparr> (bytes_of ''hello'') empty_bank)
     = Inl slice_bounds_out_of_range \<and>
   fst (oh_Save \<lparr>mem = None, err = Some 22\<rparr> (bytes_of ''hello'') empty_bank)
     = Inl slice_bounds_out_of_range \<and>
   fst (oh_Save \<lparr>mem = Some zero_page, err = Some 12\<rparr> (bytes_of ''hello'') empty_bank) = Inr 0 \<and>
   fst (oh_Save \<lparr>mem = Some zero_page, err = None\<rparr> (bytes_of ''hello'') empty_bank) = Inr 0"
proof -
  have len: "length (bytes_of ''hello'') = 5" by (simp add: bytes_of_def)
  have v: "varint 5 = [5]" using varint_small [of 5] by simp
  have w0: "well_formed empty_bank" by (rule well_formed_empty)
  have e0: "current_len empty_bank = 0" "current_cap empty_bank = 0" "allocations empty_bank = []"
    by (simp_all add: empty_bank_def)
  have none: "fst (oh_Save \<lparr>mem = None, err = x\<rparr> (bytes_of ''hello'') empty_bank)
     = Inl slice_bounds_out_of_range" for x
    using oh_Save_nomem [OF w0, of "bytes_of ''hello''" "\<lparr>mem = None, err = x\<rparr>"]
    by (simp add: len v e0)
  have some: "fst (oh_Save \<lparr>mem = Some zero_page, err = x\<rparr> (bytes_of ''hello'') empty_bank) = Inr 0" for x
    using oh_Save_fresh [OF w0, of "bytes_of ''hello''" "\<lparr>mem = Some zero_page, err = x\<rparr>" zero_page]
    by (simp add: len v e0 stringbankSize_eq)
  show ?thesis using none some by simp
qed

text \<open>
  C7 as amended: the outcome of \<open>Save\<close>, result and state, does not depend on the error
  the allocation reported; and when a page is needed and the allocation returned no memory,
  \<open>Save\<close> panics with slice bounds out of range, leaving \<open>current\<close> nil and the pages
  as they were.
\<close>

theorem allocation_error_never_reaches_caller:
  "oh_Save (a\<lparr>err := e\<rparr>) t s = oh_Save a t s \<and>
   (well_formed s \<and> mem a = None \<and> int (length t) < 2 ^ 64 \<and>
      int (current_cap s) < int (current_len s) + int (length (varint (length t) @ t)) \<longrightarrow>
      oh_Save a t s = (Inl slice_bounds_out_of_range, s\<lparr>current_len := 0, current_cap := 0\<rparr>))"
  using oh_Save_err_irrelevant [where a = a and e = e and t = t and s = s]
    oh_Save_nomem [where s = s and t = t and a = a] by blast

text \<open>The theorem at a fresh \<open>Stringbank\<close>, a three-byte string and error 12.\<close>

theorem allocation_error_never_reaches_caller_witness:
  "oh_Save (\<lparr>mem = None, err = None\<rparr>\<lparr>err := Some 12\<rparr>) [1, 2, 3] empty_bank
     = oh_Save \<lparr>mem = None, err = None\<rparr> [1, 2, 3] empty_bank \<and>
   oh_Save \<lparr>mem = None, err = None\<rparr> [1, 2, 3] empty_bank
     = (Inl slice_bounds_out_of_range, empty_bank\<lparr>current_len := 0, current_cap := 0\<rparr>)"
proof -
  have v: "varint 3 = [3]" using varint_small [of 3] by simp
  have h: "well_formed empty_bank \<and> mem \<lparr>mem = None, err = None\<rparr> = None \<and>
      int (length ([1, 2, 3] :: gostring)) < 2 ^ 64 \<and>
      int (current_cap empty_bank)
        < int (current_len empty_bank) + int (length (varint (length ([1, 2, 3] :: gostring)) @ [1, 2, 3 :: byte]))"
    by (simp add: well_formed_empty v) (simp add: empty_bank_def)
  note inst = allocation_error_never_reaches_caller
    [where a = "\<lparr>mem = None, err = None\<rparr>" and e = "Some 12" and t = "[1, 2, 3]"
      and s = empty_bank]
  from inst [THEN conjunct1] inst [THEN conjunct2, rule_format, OF h] show ?thesis by blast
qed

section \<open>Closing the off-heap arena\<close>

lemma free_all_ok:
  "(\<forall>i < length pages. fr (k + i) = None) \<Longrightarrow>
     free_all fr k pages = ([k ..< k + length pages], None)"
proof (induction pages arbitrary: k)
  case Nil
  then show ?case by simp
next
  case (Cons pg pages)
  have "fr (k + 0) = None" using Cons.prems by blast
  then have hd: "fr k = None" by simp
  have "\<forall>i < length pages. fr (Suc k + i) = None"
  proof (intro allI impI)
    fix i assume "i < length pages"
    then have "Suc i < length (pg # pages)" by simp
    from Cons.prems [rule_format, OF this] show "fr (Suc k + i) = None" by simp
  qed
  from Cons.IH [OF this] have "free_all fr (Suc k) pages = ([Suc k ..< Suc k + length pages], None)" .
  moreover have "[k ..< k + length (pg # pages)] = k # [Suc k ..< Suc k + length pages]"
    by (simp add: upt_conv_Cons del: upt_Suc)
  ultimately show ?case by (simp add: hd del: upt_Suc)
qed

lemma free_all_error:
  "i < length pages \<Longrightarrow> fr (k + i) = Some e \<Longrightarrow> (\<forall>j < i. fr (k + j) = None) \<Longrightarrow>
     free_all fr k pages = ([k ..< k + i], Some e)"
proof (induction pages arbitrary: k i)
  case Nil
  then show ?case by simp
next
  case (Cons pg pages)
  show ?case
  proof (cases i)
    case 0
    then show ?thesis using Cons.prems by simp
  next
    case (Suc i')
    have "fr (k + 0) = None" using Cons.prems(3) Suc by blast
    then have hd: "fr k = None" by simp
    have 1: "i' < length pages" using Cons.prems(1) Suc by simp
    have 2: "fr (Suc k + i') = Some e" using Cons.prems(2) Suc by simp
    have 3: "\<forall>j < i'. fr (Suc k + j) = None"
    proof (intro allI impI)
      fix j assume "j < i'"
      then have "Suc j < i" using Suc by simp
      from Cons.prems(3) [rule_format, OF this] show "fr (Suc k + j) = None" by simp
    qed
    from Cons.IH [OF 1 2 3] have "free_all fr (Suc k) pages = ([Suc k ..< Suc k + i'], Some e)" .
    moreover have "[k ..< k + i] = k # [Suc k ..< Suc k + i']"
      by (simp add: Suc upt_conv_Cons del: upt_Suc)
    ultimately show ?thesis by (simp add: hd del: upt_Suc)
  qed
qed

lemma oh_Close_ok:
  assumes "\<forall>i < length (allocations s). fr i = None"
  shows "oh_Close fr s = (None, [0 ..< length (allocations s)], empty_bank)"
  using free_all_ok [of "allocations s" fr 0] assms
  by (simp add: oh_Close_def empty_bank_def)

lemma oh_Close_error:
  assumes "i < length (allocations s)" and "fr i = Some e" and "\<forall>j < i. fr j = None"
  shows "oh_Close fr s = (Some e, [0 ..< i], s)"
  using free_all_error [of i "allocations s" fr 0 e] assms
  by (simp add: oh_Close_def)

lemma oh_Save_first:
  assumes "int (length (varint (length t) @ t)) \<le> stringbankSize" and "mem a = Some pg"
  shows "oh_Save a t empty_bank =
    (Inr 0, \<lparr>current_len = length (varint (length t) @ t), current_cap = nat stringbankSize,
             allocations = [put pg 0 (varint (length t) @ t)]\<rparr>)"
proof -
  have "int (current_cap empty_bank) < int (current_len empty_bank) + int (length (varint (length t) @ t))"
    using length_varint_pos [of "length t"]
    by (simp add: empty_bank_def del: length_greater_0_conv)
  from oh_Save_fresh [OF well_formed_empty this assms] show ?thesis by (simp add: empty_bank_def)
qed

text \<open>
  C8. In the off-heap package, a \<open>Close\<close> whose every \<open>mmap.Free\<close> succeeds frees every
  allocated page, in order, and leaves the \<open>Stringbank\<close> as newly constructed: its size is
  0, every later save behaves as on a new \<open>Stringbank\<close>, and the first one that fits a
  page and is given memory returns handle 0, at the start of page 0.
\<close>

theorem Close_resets_the_arena:
  "(\<forall>i < length (allocations s). fr i = None) \<longrightarrow>
     oh_Close fr s = (None, [0 ..< length (allocations s)], empty_bank) \<and>
     Size (snd (snd (oh_Close fr s))) = 0 \<and>
     oh_Save a t (snd (snd (oh_Close fr s))) = oh_Save a t empty_bank \<and>
     (int (length (varint (length t) @ t)) \<le> stringbankSize \<and> mem a = Some pg \<longrightarrow>
        oh_Save a t (snd (snd (oh_Close fr s))) =
          (Inr 0, \<lparr>current_len = length (varint (length t) @ t), current_cap = nat stringbankSize,
                   allocations = [put pg 0 (varint (length t) @ t)]\<rparr>))"
proof (intro impI)
  assume ok: "\<forall>i < length (allocations s). fr i = None"
  have c: "oh_Close fr s = (None, [0 ..< length (allocations s)], empty_bank)"
    by (rule oh_Close_ok [OF ok])
  then show "oh_Close fr s = (None, [0 ..< length (allocations s)], empty_bank) \<and>
     Size (snd (snd (oh_Close fr s))) = 0 \<and>
     oh_Save a t (snd (snd (oh_Close fr s))) = oh_Save a t empty_bank \<and>
     (int (length (varint (length t) @ t)) \<le> stringbankSize \<and> mem a = Some pg \<longrightarrow>
        oh_Save a t (snd (snd (oh_Close fr s))) =
          (Inr 0, \<lparr>current_len = length (varint (length t) @ t), current_cap = nat stringbankSize,
                   allocations = [put pg 0 (varint (length t) @ t)]\<rparr>))"
    using oh_Save_first [of t a pg] by (simp add: Size_empty)
qed

text \<open>
  The theorem for the \<open>Stringbank\<close> that holds "hello" and "goodbye", closed with every
  \<open>Free\<close> succeeding, and "cheese" saved afterwards.
\<close>

theorem Close_resets_the_arena_witness:
  "oh_Close (\<lambda>i. None)
      (snd (oh_Save make_page (bytes_of ''goodbye'')
         (snd (oh_Save make_page (bytes_of ''hello'') empty_bank))))
     = (None, [0], empty_bank) \<and>
   fst (oh_Save make_page (bytes_of ''cheese'')
      (snd (snd (oh_Close (\<lambda>i. None)
         (snd (oh_Save make_page (bytes_of ''goodbye'')
            (snd (oh_Save make_page (bytes_of ''hello'') empty_bank)))))))) = Inr 0"
proof -
  let ?s1 = "snd (oh_Save make_page (bytes_of ''hello'') empty_bank)"
  let ?s2 = "snd (oh_Save make_page (bytes_of ''goodbye'') ?s1)"
  have m: "mem make_page = Some zero_page" by (simp add: make_page_def)
  have len: "length (bytes_of ''hello'') = 5" "length (bytes_of ''goodbye'') = 7"
    "length (bytes_of ''cheese'') = 6"
    by (simp_all add: bytes_of_def)
  have v: "length (varint 5) = 1" "length (varint 7) = 1" "length (varint 6) = 1"
    by (simp_all add: varint_small)
  have s1: "current_len ?s1 = 6" "current_cap ?s1 = nat stringbankSize"
    "length (allocations ?s1) = 1"
    using oh_Save_first [of "bytes_of ''hello''" make_page zero_page]
    by (simp_all add: len v m stringbankSize_eq)
  have w1: "well_formed ?s1" using oh_Save_preserves [OF well_formed_empty] by simp
  have s2: "length (allocations ?s2) = 1"
    using oh_Save_fits [OF w1, of "bytes_of ''goodbye''" make_page]
    by (simp add: len v s1 stringbankSize_eq)
  have ok: "\<forall>i < length (allocations ?s2). (\<lambda>i. None :: errno option) i = None" by simp
  have fit: "int (length (varint (length (bytes_of ''cheese'')) @ bytes_of ''cheese'')) \<le> stringbankSize
      \<and> mem make_page = Some zero_page"
    by (simp add: len v m stringbankSize_eq)
  note inst = Close_resets_the_arena [where s = ?s2 and fr = "\<lambda>i. None" and a = make_page
      and t = "bytes_of ''cheese''" and pg = zero_page, THEN mp, OF ok]
  from inst [THEN conjunct1] inst [THEN conjunct2, THEN conjunct2, THEN conjunct2, rule_format, OF fit]
  show ?thesis by (simp add: s2)
qed

section \<open>Fast paths of the off-heap package\<close>

lemma writeLength_small:
  assumes "1 \<le> l" and "l \<le> 127"
  shows "writeLength l buf =
    (if 0 < slice_len buf then (Inr 1, buf\<lparr>slice_at := (slice_at buf)(0 := word_of_int l)\<rparr>)
     else (Inl index_out_of_range, buf))"
proof -
  define r where "r = nat l"
  have l: "l = int r" and r: "r \<noteq> 0" "r mod 128 = r" "r div 128 = 0"
    using assms by (simp_all add: r_def)
  show ?thesis
    unfolding l writeLength_def
    by (subst writeLength_loop.simps)
       (simp add: int_and_7F int_drop7 r Let_def writeLength_loop.simps [of 0])
qed

lemma store_window: "store pg off (window pg off n) = pg"
  by (rule ext) (simp add: store_def window_def)

lemma write_back_window: "write_back s off (window (current_page s) off n) = s"
  by (simp add: write_back_def current_page_def store_window)

lemma oh_Save_fast_is_general:
  assumes "1 \<le> length t" and "length t \<le> 127"
  shows "oh_Save_fast a t s = oh_Save_general a t s"
proof -
  have ne: "t \<noteq> []" using assms(1) by auto
  have sp: "spaceForLength (int (length t)) = 1"
    using assms ne by (intro spaceForLength_small) simp_all
  have wl: "writeLength (int (length t)) buf =
    (if 0 < slice_len buf
     then (Inr 1, buf\<lparr>slice_at := (slice_at buf)(0 := word_of_int (int (length t)))\<rparr>)
     else (Inl index_out_of_range, buf))" for buf
    using assms ne by (intro writeLength_small) (simp_all add: Suc_leI)
  obtain r s' where rs: "oh_reserve a (int (length t) + 1) s = (r, s')" by force
  show ?thesis
  proof (cases r)
    case (Inl p)
    then show ?thesis using rs by (simp add: oh_Save_fast_def oh_Save_general_def sp)
  next
    case (Inr x)
    obtain h off n where x: "x = (h, off, n)" by (cases x) auto
    show ?thesis
      using rs Inr x
      by (simp add: oh_Save_fast_def oh_Save_general_def sp wl Let_def write_back_window)
  qed
qed


text \<open>
  C10. Claimed: in the off-heap package the one-byte branch of \<open>Get\<close> agrees with the
  general path whenever the first byte has its high bit clear, and the fast-track branch
  of \<open>Save\<close> agrees with the general path for every string of at most 127 bytes. The
  second part fails at the empty string: on a fresh \<open>Stringbank\<close> the fast track reserves
  one byte for the prefix and returns handle 0, where the general path would reserve
  nothing and return \<open>(0 - 1) * stringbankSize\<close>.
\<close>

theorem fast_track_differs_for_empty_string:
  "fst (oh_Save_fast make_page [] empty_bank) = Inr 0 \<and>
   fst (oh_Save_general make_page [] empty_bank) = Inr (- 262144)"
proof -
  have "oh_Save_fast make_page [] empty_bank = oh_Save make_page [] empty_bank"
    by (simp add: oh_Save_def)
  moreover have "fst (oh_Save make_page [] empty_bank) = Inr 0"
    using oh_Save_first [of "[]" make_page zero_page]
    by (simp add: varint_small make_page_def stringbankSize_eq)
  moreover have "oh_Save_general make_page [] empty_bank = Save [] empty_bank"
    by (simp add: Save_oh_Save_general [of _ _ None] make_page_def)
  ultimately show ?thesis by (simp add: Save_empty_string_fresh stringbankSize_eq)
qed

text \<open>
  C10 as amended: the one-byte branch of \<open>Get\<close> agrees with the general path whenever the
  first byte of the record has its high bit clear, and the fast-track branch of \<open>Save\<close>
  agrees with the general path, in result and in every byte of the state, for every
  string of 1 to 127 bytes.
\<close>

theorem fast_paths_agree_with_general_paths:
  "(0 \<le> offset \<and> offset < stringbankSize \<and> data (nat offset) AND 0x80 = 0 \<longrightarrow>
      oh_Get_fast data offset = oh_Get_general data offset) \<and>
   (1 \<le> length t \<and> length t \<le> 127 \<longrightarrow> oh_Save_fast a t s = oh_Save_general a t s)"
  using oh_Get_fast_general [of offset data] oh_Save_fast_is_general [of t a s] by blast

text \<open>
  The theorem at a page that starts with the record of "hi", read at offset 0, and at a
  save of "hi" into a fresh \<open>Stringbank\<close>.
\<close>

theorem fast_paths_agree_with_general_paths_witness:
  "oh_Get_fast (put zero_page 0 [2, 104, 105]) 0 = oh_Get_general (put zero_page 0 [2, 104, 105]) 0 \<and>
   oh_Get_fast (put zero_page 0 [2, 104, 105]) 0 = Inr [104, 105] \<and>
   oh_Save_fast make_page [104, 105] empty_bank = oh_Save_general make_page [104, 105] empty_bank"
proof -
  let ?pg = "put zero_page 0 [2, 104, 105]"
  have g: "(0 :: int) \<le> 0 \<and> (0 :: int) < stringbankSize \<and> ?pg (nat 0) AND 0x80 = 0"
    by (simp add: stringbankSize_eq put_def)
  have t: "1 \<le> length ([104, 105] :: gostring) \<and> length ([104, 105] :: gostring) \<le> 127"
    by simp
  have v: "oh_Get_fast ?pg 0 = Inr [104, 105]"
    by (simp add: oh_Get_fast_def put_def stringbankSize_eq upt_rec)
  note inst = fast_paths_agree_with_general_paths
    [where offset = 0 and data = ?pg and t = "[104, 105]" and a = make_page and s = empty_bank]
  from inst [THEN conjunct1, rule_format, OF g] inst [THEN conjunct2, rule_format, OF t] v
  show ?thesis by blast
qed

section \<open>Round trips\<close>

lemma oh_Save_Get_later:
  assumes "well_formed s" and "oh_Save a t s = (Inr h, s1)"
  shows "oh_Get (oh_save_many ats s1) h = Inr t"
proof -
  have w1: "well_formed s1" using oh_Save_preserves [OF assms(1), of a t] assms(2) by simp
  have "stored s1 h t" by (rule oh_Save_stored [OF assms])
  moreover have "extends s1 (oh_save_many ats s1)" using oh_save_many_preserves [OF w1] by simp
  ultimately have "stored (oh_save_many ats s1) h t" by (rule stored_extends)
  then show ?thesis by (rule stored_Get)
qed

lemma Save_Get_round_trip:
  assumes "well_formed s" and "t \<noteq> []"
    and "int (length t) + spaceForLength (int (length t)) \<le> stringbankSize"
  shows "\<exists>h. fst (Save t s) = Inr h \<and> Get (snd (Save t s)) h = Inr t"
proof -
  from Save_succeeds [OF assms(1,3)] obtain h s' where e: "Save t s = (Inr h, s')" by blast
  from Save_Get_later [OF assms(1,2) e, of "[]"] have "Get s' h = Inr t"
    by (simp add: save_many_def)
  then show ?thesis using e by simp
qed

lemma oh_Save_Get_round_trip:
  assumes "well_formed s" and "mem a = Some pg"
    and "int (length (varint (length t) @ t)) \<le> stringbankSize"
  shows "\<exists>h. fst (oh_Save a t s) = Inr h \<and> oh_Get (snd (oh_Save a t s)) h = Inr t"
proof -
  from oh_Save_succeeds [OF assms(1,3,2)] obtain h s' where e: "oh_Save a t s = (Inr h, s')"
    by blast
  from oh_Save_Get_later [OF assms(1) e, of "[]"] have "oh_Get s' h = Inr t"
    by (simp add: oh_save_many_def)
  then show ?thesis using e by simp
qed

lemma max_prefix_width:
  assumes "int (length t) \<le> stringbankSize - 3"
  shows "int (length t) + spaceForLength (int (length t)) \<le> stringbankSize"
    and "int (length (varint (length t) @ t)) \<le> stringbankSize"
proof -
  have "take_bit 64 (int (length t)) \<le> take_bit 64 (262144 :: int)"
    using assms by (simp add: stringbankSize_eq take_bit_int_eq_self)
  from spaceForLength_mono [OF this] have "spaceForLength (int (length t)) \<le> spaceForLength 262144" .
  moreover have "spaceForLength 262144 = 3" by (simp add: spaceForLength_def bits_Len.simps)
  ultimately have w: "spaceForLength (int (length t)) \<le> 3" by simp
  then show 1: "int (length t) + spaceForLength (int (length t)) \<le> stringbankSize"
    using assms by linarith
  show "int (length (varint (length t) @ t)) \<le> stringbankSize"
  proof (cases "t = []")
    case True
    then show ?thesis by (simp add: varint_small stringbankSize_eq)
  next
    case False
    then show ?thesis using record_size [OF 1] 1 by (simp add: emitted_pos)
  qed
qed

section \<open>Handles grow\<close>

lemma frontier_le_next_page:
  assumes "well_formed s"
  shows "frontier s \<le> int (length (allocations s)) * stringbankSize"
proof (cases "current_cap s = 0")
  case True
  then show ?thesis by (simp add: frontier_def)
next
  case False
  then have "int (current_len s) \<le> stringbankSize" using assms by (auto simp: well_formed_def)
  then show ?thesis using False by (simp add: frontier_def algebra_simps)
qed

lemma finish_frontier:
  assumes "well_formed s" and "0 \<le> l"
  shows "frontier s \<le> frontier (snd (finish (oh_reserve a l s) bs)) \<and>
    (\<forall>h. fst (finish (oh_reserve a l s) bs) = Inr h \<and> 0 < l \<longrightarrow>
       frontier s = h \<or> (frontier s \<le> h \<and> h = int (length (allocations s)) * stringbankSize)) \<and>
    (\<forall>h. fst (finish (oh_reserve a l s) bs) = Inr h \<and> 0 < l \<longrightarrow>
       frontier (snd (finish (oh_reserve a l s) bs)) = h + l)"
  using assms(2)
proof (cases rule: oh_reserve_cases [where a = a and s = s])
  case fits
  have f: "finish (oh_reserve a l s) bs =
    (Inr ((int (length (allocations s)) - 1) * stringbankSize + int (current_len s)),
     put_back (s\<lparr>current_len := current_len s + nat l\<rparr>) (current_len s) bs)"
    by (rule finish_fits [OF assms(2) fits(1)])
  have "0 < l \<Longrightarrow> current_cap s \<noteq> 0" using fits(1) by auto
  then show ?thesis using assms(2) by (auto simp: f frontier_def)
next
  case (fresh pg)
  have f: "finish (oh_reserve a l s) bs =
    (Inr (int (length (allocations s)) * stringbankSize),
     s\<lparr>current_len := nat l, current_cap := nat stringbankSize,
       allocations := allocations s @ [put pg 0 bs]\<rparr>)"
    by (rule finish_fresh [OF assms(2) fresh(1,2,3)])
  show ?thesis
    using frontier_le_next_page [OF assms(1)] assms(2) stringbankSize_pos
    by (auto simp: f frontier_def)
next
  case nomem
  have f: "finish (oh_reserve a l s) bs =
    (Inl slice_bounds_out_of_range, s\<lparr>current_len := 0, current_cap := 0\<rparr>)"
    by (rule finish_nomem [OF assms(2) nomem(1,2)])
  show ?thesis
    using frontier_le_next_page [OF assms(1)] by (simp add: f) (simp add: frontier_def)
next
  case (toolarge pg)
  have f: "finish (oh_reserve a l s) bs =
    (Inl slice_bounds_out_of_range,
     s\<lparr>current_len := 0, current_cap := nat stringbankSize, allocations := allocations s @ [pg]\<rparr>)"
    by (rule finish_toolarge [OF assms(2) toolarge(1,2,3)])
  show ?thesis
    using frontier_le_next_page [OF assms(1)] stringbankSize_pos
    by (simp add: f) (simp add: frontier_def)
qed

lemma Save_frontier:
  assumes "well_formed s"
  shows "frontier s \<le> frontier (snd (Save t s))"
    and "fst (Save t s) = Inr h \<Longrightarrow> t \<noteq> [] \<Longrightarrow> frontier s \<le> h \<and> h < frontier (snd (Save t s))"
proof -
  let ?l = "int (length t) + spaceForLength (int (length t))"
  have l0: "0 \<le> ?l" using spaceForLength_nonneg [of "int (length t)"] by simp
  note f = finish_frontier [OF assms l0, of make_page "emitted (length t) @ t",
      folded Save_finish [OF assms]]
  from f show "frontier s \<le> frontier (snd (Save t s))" by blast
  assume h: "fst (Save t s) = Inr h" and ne: "t \<noteq> []"
  have lpos: "0 < ?l" using ne l0 spaceForLength_nonneg [of "int (length t)"]
    by (cases t) simp_all
  from f h lpos have "frontier s \<le> h" and "frontier (snd (Save t s)) = h + ?l" by blast+
  then show "frontier s \<le> h \<and> h < frontier (snd (Save t s))" using lpos by simp
qed

lemma oh_Save_frontier:
  assumes "well_formed s"
  shows "frontier s \<le> frontier (snd (oh_Save a t s))"
    and "fst (oh_Save a t s) = Inr h \<Longrightarrow> frontier s \<le> h \<and> h < frontier (snd (oh_Save a t s))"
proof -
  define l where "l = (if int (length t) \<le> 0x7F then int (length t) + 1
                       else int (length t) + spaceForLength (int (length t)))"
  define bs where "bs = (if int (length t) \<le> 0x7F then of_nat (length t) # t
                         else emitted (length t) @ t)"
  have e: "oh_Save a t s = finish (oh_reserve a l s) bs"
    by (simp add: oh_Save_def l_def bs_def oh_Save_fast_eq [OF assms] oh_Save_general_eq [OF assms])
  have lpos: "0 < l" using spaceForLength_nonneg [of "int (length t)"] by (simp add: l_def)
  then have l0: "0 \<le> l" by simp
  note f = finish_frontier [OF assms l0, of a bs, folded e]
  from f show "frontier s \<le> frontier (snd (oh_Save a t s))" by blast
  assume h: "fst (oh_Save a t s) = Inr h"
  from f h lpos have "frontier s \<le> h" and "frontier (snd (oh_Save a t s)) = h + l" by blast+
  then show "frontier s \<le> h \<and> h < frontier (snd (oh_Save a t s))" using lpos by simp
qed

lemma save_many_frontier:
  "well_formed s \<Longrightarrow> frontier s \<le> frontier (save_many ts s)"
proof (induction ts arbitrary: s)
  case Nil
  then show ?case by (simp add: save_many_def)
next
  case (Cons t ts)
  have w: "well_formed (snd (Save t s))" using Save_preserves [OF Cons.prems] by simp
  from Cons.IH [OF w] Save_frontier(1) [OF Cons.prems, of t]
  show ?case by (simp add: save_many_Cons)
qed

lemma oh_save_many_frontier:
  "well_formed s \<Longrightarrow> frontier s \<le> frontier (oh_save_many ats s)"
proof (induction ats arbitrary: s)
  case Nil
  then show ?case by (simp add: oh_save_many_def)
next
  case (Cons x ats)
  obtain a t where x: "x = (a, t)" by (cases x) auto
  have w: "well_formed (snd (oh_Save a t s))" using oh_Save_preserves [OF Cons.prems] by simp
  have "oh_save_many (x # ats) s = oh_save_many ats (snd (oh_Save a t s))"
    by (simp add: oh_save_many_def x)
  with Cons.IH [OF w] oh_Save_frontier(1) [OF Cons.prems, of a t]
  show ?case by simp
qed

lemma Save_handles_increase:
  assumes "well_formed s" and "t \<noteq> []" and "Save t s = (Inr h, s1)"
    and "t' \<noteq> []" and "Save t' (save_many ts s1) = (Inr h', s2)"
  shows "h < h'"
proof -
  have w1: "well_formed s1" using Save_preserves [OF assms(1), of t] assms(3) by simp
  have w2: "well_formed (save_many ts s1)" using save_many_preserves [OF w1] by simp
  have "h < frontier s1" using Save_frontier(2) [OF assms(1), of t h] assms(2,3) by simp
  also have "\<dots> \<le> frontier (save_many ts s1)" by (rule save_many_frontier [OF w1])
  also have "\<dots> \<le> h'" using Save_frontier(2) [OF w2, of t' h'] assms(4,5) by simp
  finally show ?thesis .
qed

lemma oh_Save_handles_increase:
  assumes "well_formed s" and "oh_Save a t s = (Inr h, s1)"
    and "oh_Save a' t' (oh_save_many ats s1) = (Inr h', s2)"
  shows "h < h'"
proof -
  have w1: "well_formed s1" using oh_Save_preserves [OF assms(1), of a t] assms(2) by simp
  have w2: "well_formed (oh_save_many ats s1)" using oh_save_many_preserves [OF w1] by simp
  have "h < frontier s1" using oh_Save_frontier(2) [OF assms(1), of a t h] assms(2) by simp
  also have "\<dots> \<le> frontier (oh_save_many ats s1)" by (rule oh_save_many_frontier [OF w1])
  also have "\<dots> \<le> h'" using oh_Save_frontier(2) [OF w2, of a' t' h'] assms(3) by simp
  finally show ?thesis .
qed

lemma Size_after_first_Save:
  assumes "t \<noteq> []" and "int (length t) + spaceForLength (int (length t)) \<le> stringbankSize"
  shows "Size (snd (Save t empty_bank)) = stringbankSize"
proof -
  have "0 < int (length t) + spaceForLength (int (length t))"
    using assms(1) spaceForLength_nonneg [of "int (length t)"] by (cases t) simp_all
  then have "int (current_cap empty_bank)
      < int (current_len empty_bank) + (int (length t) + spaceForLength (int (length t)))"
    by (simp add: empty_bank_def)
  from Save_fresh_summary(4) [OF well_formed_empty this assms(2)]
  show ?thesis by (simp add: Size_def empty_bank_def)
qed

lemma Size_after_first_oh_Save:
  assumes "int (length (varint (length t) @ t)) \<le> stringbankSize" and "mem a = Some pg"
  shows "Size (snd (oh_Save a t empty_bank)) = stringbankSize"
  by (simp add: oh_Save_first [OF assms] Size_def)

end
